theory Spec2Isabelle
  imports Complex_Main "HOL-Library.AList" "HOL-Library.Log_Nat"
begin

section \<open>Numbers and timestamps\<close>

text \<open>
  The route handler computes with JavaScript numbers, which are IEEE 754 doubles. A finite
  double is a rational number, and the result of an arithmetic operation on doubles is
  the exact result rounded to the nearest double, a tie going to the double with an even
  significand. Counters coming from the platform (additions, deletions, changed files,
  commits) and counts of list elements are non-negative integers and are modelled as
  \<open>nat\<close>; they are exact as doubles below \<open>2 ^ 53\<close>. The timestamp strings of a pull
  request come from the platform and are modelled by the value of
  \<open>new Date(s).getTime()\<close>, the milliseconds since the epoch, as \<open>int\<close>.
\<close>

type_synonym timestamp = int

text \<open>
  \<open>ilog2 x\<close> is the binary exponent of a positive rational: \<open>2 ^ e \<le> x < 2 ^ (e + 1)\<close>.
  It is off by at most one from the difference of the bit lengths of numerator and
  denominator.
\<close>

definition ilog2 :: "rat \<Rightarrow> int" where
  "ilog2 x =
     (case quotient_of x of
        (p, q) \<Rightarrow> (let e = bitlen p - bitlen q in if 2 powi e \<le> x then e else e - 1))"

definition round_half_even :: "rat \<Rightarrow> int" where
  "round_half_even x =
     (let f = \<lfloor>x\<rfloor>; r = x - of_int f
      in if r < 1 / 2 then f else if 1 / 2 < r then f + 1 else if even f then f else f + 1)"

text \<open>
  Rounding to the nearest double: the number is scaled by the unit in the last place of
  its binade, so that it lies between \<open>2 ^ 52\<close> and \<open>2 ^ 53\<close>, rounded to an integer and
  scaled back. The exponent range of a double is not modelled: every non-zero magnitude
  this program computes from time values (at most 8.64e15 in magnitude) and from counts
  lies far inside it.
\<close>

definition round_to_double :: "rat \<Rightarrow> rat" where
  "round_to_double x =
     (if x = 0 then 0
      else (let u = 2 powi (ilog2 \<bar>x\<bar> - 52)
            in sgn x * (of_int (round_half_even (\<bar>x\<bar> / u)) * u)))"

text \<open>
  \<open>Math.round\<close> of a finite number: the nearest integer, a half rounded towards plus
  infinity. It is computed exactly.
\<close>

definition js_round :: "rat \<Rightarrow> int" where
  "js_round x = \<lfloor>x + 1 / 2\<rfloor>"

text \<open>
  A JavaScript number: NaN, an infinity, or a finite double. The sign of a zero is not
  modelled.
\<close>

datatype js_number = NaN | PosInfinity | NegInfinity | Finite rat

fun isFinite :: "js_number \<Rightarrow> bool" where
  "isFinite (Finite x) = True"
| "isFinite _ = False"

fun js_plus :: "js_number \<Rightarrow> js_number \<Rightarrow> js_number" where
  "js_plus (Finite x) (Finite y) = Finite (round_to_double (x + y))"
| "js_plus NaN b = NaN"
| "js_plus a NaN = NaN"
| "js_plus PosInfinity NegInfinity = NaN"
| "js_plus NegInfinity PosInfinity = NaN"
| "js_plus PosInfinity b = PosInfinity"
| "js_plus a PosInfinity = PosInfinity"
| "js_plus NegInfinity b = NegInfinity"
| "js_plus a NegInfinity = NegInfinity"

fun js_uminus :: "js_number \<Rightarrow> js_number" where
  "js_uminus (Finite x) = Finite (- x)"
| "js_uminus NaN = NaN"
| "js_uminus PosInfinity = NegInfinity"
| "js_uminus NegInfinity = PosInfinity"

definition js_minus :: "js_number \<Rightarrow> js_number \<Rightarrow> js_number" where
  "js_minus a b = js_plus a (js_uminus b)"

text \<open>The sign of a number that is not NaN, for products and quotients of infinities.\<close>

fun js_negative :: "js_number \<Rightarrow> bool" where
  "js_negative (Finite x) = (x < 0)"
| "js_negative NegInfinity = True"
| "js_negative a = False"

definition signed_infinity :: "bool \<Rightarrow> js_number" where
  "signed_infinity negative = (if negative then NegInfinity else PosInfinity)"

fun js_times :: "js_number \<Rightarrow> js_number \<Rightarrow> js_number" where
  "js_times (Finite x) (Finite y) = Finite (round_to_double (x * y))"
| "js_times NaN b = NaN"
| "js_times a NaN = NaN"
| "js_times a b =
     (if a = Finite 0 \<or> b = Finite 0 then NaN
      else signed_infinity (js_negative a \<noteq> js_negative b))"

fun js_divide :: "js_number \<Rightarrow> js_number \<Rightarrow> js_number" where
  "js_divide (Finite x) (Finite y) =
     (if y = 0 then (if x = 0 then NaN else signed_infinity (x < 0))
      else Finite (round_to_double (x / y)))"
| "js_divide NaN b = NaN"
| "js_divide a NaN = NaN"
| "js_divide (Finite x) b = Finite 0"
| "js_divide a (Finite y) = signed_infinity (js_negative a \<noteq> (y < 0))"
| "js_divide a b = NaN"

fun Math_abs :: "js_number \<Rightarrow> js_number" where
  "Math_abs (Finite x) = Finite \<bar>x\<bar>"
| "Math_abs NaN = NaN"
| "Math_abs a = PosInfinity"

fun Math_round :: "js_number \<Rightarrow> js_number" where
  "Math_round (Finite x) = Finite (of_int (js_round x))"
| "Math_round a = a"

text \<open>\<open>Math.max\<close> and \<open>Math.min\<close> of two numbers: NaN as soon as one argument is NaN.\<close>

fun Math_max :: "js_number \<Rightarrow> js_number \<Rightarrow> js_number" where
  "Math_max (Finite x) (Finite y) = Finite (max x y)"
| "Math_max NaN b = NaN"
| "Math_max a NaN = NaN"
| "Math_max PosInfinity b = PosInfinity"
| "Math_max a PosInfinity = PosInfinity"
| "Math_max NegInfinity b = b"
| "Math_max a NegInfinity = a"

fun Math_min :: "js_number \<Rightarrow> js_number \<Rightarrow> js_number" where
  "Math_min (Finite x) (Finite y) = Finite (min x y)"
| "Math_min NaN b = NaN"
| "Math_min a NaN = NaN"
| "Math_min NegInfinity b = NegInfinity"
| "Math_min a NegInfinity = NegInfinity"
| "Math_min PosInfinity b = b"
| "Math_min a PosInfinity = a"

text \<open>
  The value of \<open>new Date(s)\<close> for a string \<open>s\<close> that a caller supplies: a time value, or
  an invalid date when the string does not parse. \<open>getTime\<close> of an invalid date is NaN.
\<close>

datatype date_value = InvalidDate | Time timestamp

fun getTime :: "date_value \<Rightarrow> js_number" where
  "getTime InvalidDate = NaN"
| "getTime (Time t) = Finite (of_int t)"

definition DEFAULT_RANGE_DAYS :: int where
  "DEFAULT_RANGE_DAYS = 30"

definition MILLISECONDS_PER_DAY :: int where
  "MILLISECONDS_PER_DAY = 24 * 60 * 60 * 1000"

section \<open>Range Resolver\<close>

text \<open>
  The two bounds of a range are strings in the source, read through \<open>new Date\<close> wherever
  they are used; the model keeps their date values. Explicit bounds are taken from the
  request as they are, so a bound may be an invalid date. The label is a formatted
  string; the model keeps the data it is formatted from: the two bounds
  (\<open>since.slice(0, 10)\<close> and \<open>until.slice(0, 10)\<close> joined by an arrow) or the day count
  (\<open>Last N days\<close>).
\<close>

datatype range_label = DateSpan date_value date_value | LastDays int

record RangeDescriptor =
  since :: date_value
  until :: date_value
  label :: range_label

text \<open>
  \<open>coerceRange\<close> takes \<open>numericRange = Number(range)\<close>. The test
  \<open>!Number.isFinite(numericRange) || numericRange <= 0\<close> sends NaN and both infinities
  to the default through its first disjunct.
\<close>

fun coerceRange :: "js_number \<Rightarrow> int" where
  "coerceRange (Finite x) =
     (if x \<le> 0 then DEFAULT_RANGE_DAYS else min 90 (max 7 \<lfloor>x\<rfloor>))"
| "coerceRange numericRange = DEFAULT_RANGE_DAYS"

definition getRangeDayCount :: "RangeDescriptor \<Rightarrow> js_number" where
  "getRangeDayCount rng =
     (let diff = js_minus (getTime (until rng)) (getTime (since rng))
      in Math_max (Finite 1)
           (Math_round (js_divide (Math_abs diff) (Finite (of_int MILLISECONDS_PER_DAY)))))"

text \<open>
  \<open>computeRangeDescriptor\<close> reads the clock; \<open>now\<close> is that reading. Its arguments are
  strings or absent: an absent or empty bound is \<open>None\<close> (both are falsy in the source's
  test \<open>since && until\<close>), another string is given by its date value.
\<close>

definition computeRangeDescriptor ::
  "timestamp \<Rightarrow> date_value option \<Rightarrow> date_value option \<Rightarrow> js_number \<Rightarrow> RangeDescriptor" where
  "computeRangeDescriptor now since_opt until_opt rangeDays =
     (case (since_opt, until_opt) of
        (Some s, Some u) \<Rightarrow> \<lparr>since = s, until = u, label = DateSpan s u\<rparr>
      | _ \<Rightarrow>
          (let days = coerceRange rangeDays
           in \<lparr>since = Time (now - days * 24 * 60 * 60 * 1000), until = Time now,
               label = LastDays days\<rparr>))"

text \<open>
  The day count as the specification words it, for two time values: whole days between
  them, rounded down, at least 1. Used only to compare with \<open>getRangeDayCount\<close>.
\<close>

definition whole_days_floor :: "timestamp \<Rightarrow> timestamp \<Rightarrow> int" where
  "whole_days_floor s u = max 1 (\<bar>u - s\<bar> div MILLISECONDS_PER_DAY)"

section \<open>Pull requests\<close>

text \<open>
  The pull request as the platform returns it. A \<open>null\<close> user, merge or close timestamp
  is \<open>None\<close>.
\<close>

record GitHubUser =
  login :: string
  avatar_url :: "string option"

record GitHubPullRequest =
  pr_id :: nat
  pr_number :: nat
  title :: string
  user :: "GitHubUser option"
  merged_at :: "timestamp option"
  created_at :: timestamp
  updated_at :: timestamp
  closed_at :: "timestamp option"
  additions :: nat
  deletions :: nat
  changed_files :: nat
  commits :: nat
  head_ref :: string
  base_ref :: string
  html_url :: string
  draft :: bool

text \<open>
  \<open>withinRange\<close> compares time values with \<open>>=\<close> and \<open><=\<close>; a comparison with the NaN
  of an invalid bound is false.
\<close>

fun withinRange :: "timestamp option \<Rightarrow> RangeDescriptor \<Rightarrow> bool" where
  "withinRange None rng = False"
| "withinRange (Some time) rng =
     (case (since rng, until rng) of
        (Time s, Time u) \<Rightarrow> time \<ge> s \<and> time \<le> u
      | _ \<Rightarrow> False)"

section \<open>Impact Scorer\<close>

text \<open>
  Every quotient, product and sum of \<open>calculateImpactScore\<close> is rounded to a double, in
  the order in which the source evaluates them; the literal \<open>0.9\<close> is the double nearest
  to nine tenths. The minimum with 30 is taken of an integer: the sum of the two counters
  is at least 30 as a double exactly when it is as an integer.
\<close>

definition calculateImpactScore :: "GitHubPullRequest \<Rightarrow> int" where
  "calculateImpactScore pr =
     (let sizeFactor = round_to_double (of_nat (min 30 (additions pr + deletions pr)) / 30);
          filesFactor = round_to_double (of_nat (min 20 (changed_files pr)) / 20);
          commitsFactor = round_to_double (of_nat (min 10 (commits pr)) / 10);
          draftPenalty = (if draft pr then round_to_double (9 / 10) else 1)
      in js_round
           (round_to_double
              (round_to_double
                 (round_to_double
                    (round_to_double (50 * sizeFactor) + round_to_double (30 * filesFactor))
                  + round_to_double (20 * commitsFactor))
               * draftPenalty)))"

text \<open>
  The sum that \<open>calculateImpactScore\<close> multiplies by the draft penalty, as a function of
  the three sizes. It is used to state facts about the score.
\<close>

definition weighted_sum :: "nat \<Rightarrow> nat \<Rightarrow> nat \<Rightarrow> rat" where
  "weighted_sum s f c =
     round_to_double
       (round_to_double
          (round_to_double (50 * round_to_double (of_nat (min 30 s) / 30))
           + round_to_double (30 * round_to_double (of_nat (min 20 f) / 20)))
        + round_to_double (20 * round_to_double (of_nat (min 10 c) / 10)))"

section \<open>Repository Aggregator\<close>

record RepoMetric =
  rm_name :: string
  rm_owner :: string
  rm_fullName :: string
  activeContributors :: nat
  mergedPRs :: nat
  openPRs :: nat
  repo_commits :: nat
  linesAdded :: nat
  linesDeleted :: nat
  deploymentFrequency :: js_number
  averageLeadTimeHours :: int
  issuesClosed :: nat
  healthScore :: js_number
  languages :: "string list"

record EngineerMetric =
  engineer :: string
  avatarUrl :: "string option"
  eng_repos :: "string list"
  eng_mergedPRs :: nat
  eng_commits :: nat
  reviews :: nat
  eng_linesAdded :: nat
  eng_linesDeleted :: nat
  impactScore :: int
  avgCycleTimeHours :: int
  avgReviewTurnaroundHours :: int
  lastActive :: timestamp

record HighImpactPR =
  hi_id :: nat
  hi_title :: string
  hi_repo :: string
  author :: string
  mergedAt :: "timestamp option"
  hi_additions :: nat
  hi_deletions :: nat
  changedFiles :: nat
  leadTimeHours :: int
  url :: string
  summary :: string

text \<open>\<open>pr.user?.login ?? "unknown"\<close>\<close>

definition author_of :: "GitHubPullRequest \<Rightarrow> string" where
  "author_of pr = (case user pr of None \<Rightarrow> ''unknown'' | Some u \<Rightarrow> login u)"

text \<open>
  \<open>new Date(pr.merged_at!).getTime()\<close>: the non-null assertion is erased at run time,
  and \<open>new Date(null)\<close> is the epoch.
\<close>

definition merged_time :: "GitHubPullRequest \<Rightarrow> timestamp" where
  "merged_time pr = (case merged_at pr of None \<Rightarrow> 0 | Some t \<Rightarrow> t)"

text \<open>Hours from creation to merge, as the double the source computes.\<close>

definition leadTime :: "GitHubPullRequest \<Rightarrow> rat" where
  "leadTime pr =
     round_to_double
       (round_to_double (of_int (merged_time pr - created_at pr)) / of_int (1000 * 60 * 60))"

text \<open>
  The state of the \<open>forEach\<close> loop of \<open>aggregateMetrics\<close>: the repository record being
  filled, the \<open>Map\<close> from author to engineer record (an association list in insertion
  order, as a JavaScript \<open>Map\<close> iterates), and the high-impact summaries pushed so far.
\<close>

record AggState =
  st_repoMetric :: RepoMetric
  engineerAccumulator :: "(string \<times> EngineerMetric) list"
  st_highImpact :: "HighImpactPR list"

definition new_engineer :: "string \<Rightarrow> GitHubPullRequest \<Rightarrow> EngineerMetric" where
  "new_engineer a pr =
     \<lparr>engineer = a,
      avatarUrl = (case user pr of None \<Rightarrow> None | Some u \<Rightarrow> avatar_url u),
      eng_repos = [],
      eng_mergedPRs = 0, eng_commits = 0, reviews = 0,
      eng_linesAdded = 0, eng_linesDeleted = 0,
      impactScore = 0, avgCycleTimeHours = 0, avgReviewTurnaroundHours = 0,
      lastActive = updated_at pr\<rparr>"

definition aggregate_step ::
  "string \<Rightarrow> string \<Rightarrow> RangeDescriptor \<Rightarrow> AggState \<Rightarrow> GitHubPullRequest \<Rightarrow> AggState" where
  "aggregate_step repoName repoOwner rng st pr =
     (let a = author_of pr;
          existing0 = (case map_of (engineerAccumulator st) a of
                         Some e \<Rightarrow> e
                       | None \<Rightarrow> new_engineer a pr);
          existing = (if repoName \<in> set (eng_repos existing0) then existing0
                      else existing0\<lparr>eng_repos := eng_repos existing0 @ [repoName]\<rparr>);
          rm = st_repoMetric st
      in if withinRange (merged_at pr) rng then
           \<lparr>st_repoMetric = rm
              \<lparr>mergedPRs := mergedPRs rm + 1,
               linesAdded := linesAdded rm + additions pr,
               linesDeleted := linesDeleted rm + deletions pr,
               repo_commits := repo_commits rm + commits pr\<rparr>,
            engineerAccumulator = AList.update a
              (existing
                \<lparr>eng_mergedPRs := eng_mergedPRs existing + 1,
                 eng_linesAdded := eng_linesAdded existing + additions pr,
                 eng_linesDeleted := eng_linesDeleted existing + deletions pr,
                 eng_commits := eng_commits existing + commits pr,
                 impactScore := impactScore existing + calculateImpactScore pr,
                 lastActive := (if updated_at pr > lastActive existing then updated_at pr
                                else lastActive existing)\<rparr>)
              (engineerAccumulator st),
            st_highImpact = st_highImpact st @
              [\<lparr>hi_id = pr_id pr, hi_title = title pr,
                hi_repo = repoOwner @ ''/'' @ repoName,
                author = a, mergedAt = merged_at pr,
                hi_additions = additions pr, hi_deletions = deletions pr,
                changedFiles = changed_files pr,
                leadTimeHours = max 1 (js_round (leadTime pr)),
                url = html_url pr,
                summary = ''Merged into '' @ base_ref pr @ '' from '' @ head_ref pr\<rparr>]\<rparr>
         else
           \<lparr>st_repoMetric = rm\<lparr>openPRs := openPRs rm + 1\<rparr>,
            engineerAccumulator = AList.update a existing (engineerAccumulator st),
            st_highImpact = st_highImpact st\<rparr>)"

definition initial_repoMetric :: "string \<Rightarrow> string \<Rightarrow> RepoMetric" where
  "initial_repoMetric repoName repoOwner =
     \<lparr>rm_name = repoName, rm_owner = repoOwner, rm_fullName = repoOwner @ ''/'' @ repoName,
      activeContributors = 0, mergedPRs = 0, openPRs = 0, repo_commits = 0,
      linesAdded = 0, linesDeleted = 0, deploymentFrequency = Finite 0,
      averageLeadTimeHours = 0, issuesClosed = 0, healthScore = Finite 0, languages = []\<rparr>"

definition initial_state :: "string \<Rightarrow> string \<Rightarrow> AggState" where
  "initial_state repoName repoOwner =
     \<lparr>st_repoMetric = initial_repoMetric repoName repoOwner,
      engineerAccumulator = [], st_highImpact = []\<rparr>"

text \<open>The mean lead time of the in-window pull requests among \<open>prs\<close>, over \<open>n\<close>.\<close>

definition mean_lead_time :: "GitHubPullRequest list \<Rightarrow> RangeDescriptor \<Rightarrow> nat \<Rightarrow> int" where
  "mean_lead_time prs rng n =
     (if n > 0 then
        js_round
          (round_to_double
             (foldl (\<lambda>acc pr. round_to_double (acc + leadTime pr)) 0
                (filter (\<lambda>pr. withinRange (merged_at pr) rng) prs) / of_nat n))
      else 0)"

text \<open>
  The values derived after the loop, written into the repository record. The day count
  of the range is NaN when a bound of the range is an invalid date, and then so are the
  deployment frequency and the health score.
\<close>

definition finish_repoMetric ::
  "GitHubPullRequest list \<Rightarrow> RangeDescriptor \<Rightarrow> nat \<Rightarrow> RepoMetric \<Rightarrow> RepoMetric" where
  "finish_repoMetric pullRequests rng accSize rm0 =
     (let rm1 = rm0\<lparr>activeContributors := accSize\<rparr>;
          rm2 = rm1\<lparr>deploymentFrequency :=
                  Math_max (Finite 1)
                    (Math_round
                       (js_divide (Finite (of_nat (mergedPRs rm1))) (getRangeDayCount rng)))\<rparr>;
          rm3 = rm2\<lparr>averageLeadTimeHours := mean_lead_time pullRequests rng (mergedPRs rm2)\<rparr>
      in rm3\<lparr>healthScore :=
            Math_max (Finite 0)
              (Math_min (Finite 100)
                 (Math_round
                    (js_plus
                       (js_plus
                          (js_times (Finite (of_nat (mergedPRs rm3)))
                             (Finite (round_to_double (3 / 10))))
                          (js_times (deploymentFrequency rm3) (Finite 6)))
                       (Math_max (Finite 0)
                          (js_minus (Finite 40)
                             (js_times (Finite (of_nat (openPRs rm3))) (Finite 2)))))))\<rparr>)"

text \<open>
  The per-engineer cycle time filters on \<open>pr.user?.login === entry.engineer\<close>, which
  compares the login itself (absent for a pull request without a user), not the
  \<open>unknown\<close> default.
\<close>

definition finish_engineer ::
  "GitHubPullRequest list \<Rightarrow> RangeDescriptor \<Rightarrow> EngineerMetric \<Rightarrow> EngineerMetric" where
  "finish_engineer pullRequests rng entry =
     entry\<lparr>avgCycleTimeHours :=
       mean_lead_time
         (filter (\<lambda>pr. map_option login (user pr) = Some (engineer entry)) pullRequests)
         rng (eng_mergedPRs entry)\<rparr>"

text \<open>
  \<open>highImpact.sort((a, b) => b.additions + b.deletions - (a.additions + a.deletions))\<close>:
  a stable sort, largest change first.
\<close>

definition sort_by_size_desc :: "HighImpactPR list \<Rightarrow> HighImpactPR list" where
  "sort_by_size_desc hs = sort_key (\<lambda>h. - int (hi_additions h + hi_deletions h)) hs"

record AggregateResult =
  repoMetric :: RepoMetric
  engineerMetrics :: "EngineerMetric list"
  highImpact :: "HighImpactPR list"

definition aggregateMetrics ::
  "string \<Rightarrow> string \<Rightarrow> GitHubPullRequest list \<Rightarrow> RangeDescriptor \<Rightarrow> AggregateResult" where
  "aggregateMetrics repoName repoOwner pullRequests rng =
     (let st = foldl (aggregate_step repoName repoOwner rng)
                 (initial_state repoName repoOwner) pullRequests
      in \<lparr>repoMetric = finish_repoMetric pullRequests rng
                         (length (engineerAccumulator st)) (st_repoMetric st),
          engineerMetrics = map (finish_engineer pullRequests rng)
                              (map snd (engineerAccumulator st)),
          highImpact = take 10 (sort_by_size_desc (st_highImpact st))\<rparr>)"

text \<open>
  The value the specification gives for \<open>lastActive\<close>: the maximum updated timestamp
  over all of the engineer's collected pull requests. It is read only for an author who
  has a pull request in the list.
\<close>

definition latest_update_of :: "string \<Rightarrow> GitHubPullRequest list \<Rightarrow> timestamp" where
  "latest_update_of a prs = Max (set (map updated_at (filter (\<lambda>p. author_of p = a) prs)))"

section \<open>Access to the platform\<close>

text \<open>
  An outbound call either yields the parsed payload or fails: with a response that is
  not \<open>ok\<close> (status, status text and body), or because \<open>fetch\<close> or \<open>res.json()\<close>
  rejects. The platform is modelled by its answers during one build, as functions of the
  request; the calls made are recorded, in order, in a log that every operation threads.
  \<open>lookup_settled\<close> gives the moment at which a single-repository lookup settles; it
  matters only for lookups that run at the same time.
\<close>

datatype failure = HttpFailure nat string string | FetchRejected string

datatype js_error =
    MissingToken
  | GitHubApiError nat string string
  | Rejected string
  | MissingOrgOrRepos
  | TypeError

record GitHubRepo =
  repo_name :: string
  full_name :: string
  owner_login :: string
  language :: "string option"
  languages_url :: string

datatype request =
    GetOrgRepos string nat
  | GetRepo string string
  | GetLanguages string
  | GetPulls string string nat
  | GetPull string string nat

record GitHub =
  org_repos :: "string \<Rightarrow> nat \<Rightarrow> failure + GitHubRepo list"
  single_repo :: "string \<Rightarrow> string \<Rightarrow> failure + GitHubRepo"
  lookup_settled :: "string \<Rightarrow> string \<Rightarrow> nat"
  repo_languages :: "string \<Rightarrow> failure + string list"
  pulls_page :: "string \<Rightarrow> string \<Rightarrow> nat \<Rightarrow> failure + GitHubPullRequest list"
  pull_detail :: "string \<Rightarrow> string \<Rightarrow> nat \<Rightarrow> failure + GitHubPullRequest"

text \<open>\<open>!token\<close> holds for an unset and for an empty token.\<close>

definition no_token :: "string option \<Rightarrow> bool" where
  "no_token token \<longleftrightarrow> token = None \<or> token = Some []"

definition fetchFromGitHub ::
  "string option \<Rightarrow> request \<Rightarrow> failure + 'a \<Rightarrow> request list
     \<Rightarrow> (js_error + 'a) \<times> request list" where
  "fetchFromGitHub token req response calls =
     (if no_token token then (Inl MissingToken, calls)
      else (case response of
              Inl (HttpFailure code text body) \<Rightarrow> Inl (GitHubApiError code text body)
            | Inl (FetchRejected m) \<Rightarrow> Inl (Rejected m)
            | Inr v \<Rightarrow> Inr v,
            calls @ [req]))"

text \<open>
  \<open>const [owner, repo] = fullName.split("/")\<close>: the first two segments; a missing second
  segment is \<open>undefined\<close>, which the path template prints as such.
\<close>

definition split_full_name :: "string \<Rightarrow> string \<times> string" where
  "split_full_name fullName =
     (let rest = dropWhile (\<lambda>c. c \<noteq> CHR ''/'') fullName
      in (takeWhile (\<lambda>c. c \<noteq> CHR ''/'') fullName,
          if rest = [] then ''undefined'' else takeWhile (\<lambda>c. c \<noteq> CHR ''/'') (tl rest)))"

section \<open>Repository Source Client\<close>




section \<open>Pull Request Collector\<close>

definition perPage :: nat where
  "perPage = 50"

text \<open>
  The test of the \<open>for\<close> loop: the pull request has a merge timestamp, and it is more than
  a day older than \<open>since\<close>.
\<close>

definition merged_before_window :: "GitHubPullRequest \<Rightarrow> RangeDescriptor \<Rightarrow> bool" where
  "merged_before_window pr rng =
     (case merged_at pr of
        None \<Rightarrow> False
      | Some t \<Rightarrow>
          (case since rng of
             Time s \<Rightarrow> t < s - 1000 * 60 * 60 * 24
           | InvalidDate \<Rightarrow> False))"

text \<open>
  The \<open>for\<close> loop over one batch. It returns the list with the details pushed and the
  value it leaves in \<open>shouldContinue\<close>: the value on entry, or \<open>False\<close> when it stops at
  a pull request merged before the window.
\<close>

fun scan_batch ::
  "string option \<Rightarrow> GitHub \<Rightarrow> string \<Rightarrow> string \<Rightarrow> RangeDescriptor
     \<Rightarrow> GitHubPullRequest list \<Rightarrow> GitHubPullRequest list \<Rightarrow> bool \<Rightarrow> request list
     \<Rightarrow> (js_error + GitHubPullRequest list \<times> bool) \<times> request list" where
  "scan_batch token gh owner repo rng [] pullRequests shouldContinue calls =
     (Inr (pullRequests, shouldContinue), calls)"
| "scan_batch token gh owner repo rng (pr # batch) pullRequests shouldContinue calls =
     (if merged_before_window pr rng then (Inr (pullRequests, False), calls)
      else
        (case fetchFromGitHub token (GetPull owner repo (pr_number pr))
                (pull_detail gh owner repo (pr_number pr)) calls of
           (Inl e, calls1) \<Rightarrow> (Inl e, calls1)
         | (Inr detail, calls1) \<Rightarrow>
             scan_batch token gh owner repo rng batch (pullRequests @ [detail])
               shouldContinue calls1))"

text \<open>
  The \<open>while\<close> loop. After the \<open>for\<close> loop the source assigns
  \<open>shouldContinue = batch.length === perPage\<close>, whatever the \<open>for\<close> loop left there.
\<close>

function fetchPullRequests_loop ::
  "string option \<Rightarrow> GitHub \<Rightarrow> string \<Rightarrow> string \<Rightarrow> RangeDescriptor
     \<Rightarrow> nat \<Rightarrow> bool \<Rightarrow> GitHubPullRequest list \<Rightarrow> request list
     \<Rightarrow> (js_error + GitHubPullRequest list) \<times> request list" where
  "fetchPullRequests_loop token gh owner repo rng page shouldContinue pullRequests calls =
     (if shouldContinue \<and> page \<le> 5 then
        (case fetchFromGitHub token (GetPulls owner repo page)
                (pulls_page gh owner repo page) calls of
           (Inl e, calls1) \<Rightarrow> (Inl e, calls1)
         | (Inr batch, calls1) \<Rightarrow>
             (case scan_batch token gh owner repo rng batch pullRequests shouldContinue calls1 of
                (Inl e, calls2) \<Rightarrow> (Inl e, calls2)
              | (Inr (pullRequests', shouldContinue'), calls2) \<Rightarrow>
                  fetchPullRequests_loop token gh owner repo rng (page + 1)
                    (length batch = perPage) pullRequests' calls2))
      else (Inr pullRequests, calls))"
  by pat_completeness auto
termination
  by (relation "measure (\<lambda>(token, gh, owner, repo, rng, page, shouldContinue, pullRequests, calls).
                  6 - page)") auto

definition fetchPullRequestsForRepo ::
  "string option \<Rightarrow> GitHub \<Rightarrow> string \<Rightarrow> RangeDescriptor \<Rightarrow> request list
     \<Rightarrow> (js_error + GitHubPullRequest list) \<times> request list" where
  "fetchPullRequestsForRepo token gh fullName rng calls =
     (case split_full_name fullName of
        (owner, repo) \<Rightarrow> fetchPullRequests_loop token gh owner repo rng 1 True [] calls)"

section \<open>Snapshot Builder\<close>

















section \<open>The inbound operation\<close>

text \<open>
  The value of \<open>since\<close> or \<open>until\<close> in the request body. The handler declares them as
  optional strings but reads whatever the JSON holds: \<open>NoBound\<close> is an absent or falsy
  value (\<open>undefined\<close>, \<open>null\<close>, the empty string, 0, \<open>false\<close>); \<open>TextBound d\<close> is a
  non-empty string with date value \<open>d\<close> (or an array: it has a \<open>slice\<close> method too, and
  \<open>new Date\<close> reads its string form); \<open>OtherBound\<close> is any other truthy value (a number,
  \<open>true\<close>, an object), which has no \<open>slice\<close> method.
\<close>

datatype bound_field = NoBound | TextBound date_value | OtherBound

text \<open>
  The fields of the body. \<open>body_org\<close> and \<open>body_repos\<close> are at their declared types: they
  are read only inside the \<open>try\<close> block. \<open>body_range\<close> is the value of \<open>Number(range)\<close>.
\<close>

record Body =
  body_org :: "string option"
  body_repos :: "string list option"
  body_since :: bound_field
  body_until :: bound_field
  body_range :: js_number


text \<open>
  What \<open>request.json()\<close> gives: it rejects (\<open>NotJson\<close>), or it yields \<open>null\<close>, an object
  with its fields, or another JSON value (a number, a string, \<open>true\<close>, \<open>false\<close>, an
  array), which has none of the five fields.
\<close>

datatype request_body = NotJson | JsonNull | JsonObject Body | JsonOther







section \<open>Sample data\<close>

text \<open>A pull request and a range on which the functions are evaluated below.\<close>

definition sample_pr :: GitHubPullRequest where
  "sample_pr =
     \<lparr>pr_id = 1, pr_number = 1, title = ''Add cache'',
      user = Some \<lparr>login = ''alice'', avatar_url = None\<rparr>,
      merged_at = None, created_at = 0, updated_at = 0, closed_at = None,
      additions = 4, deletions = 6, changed_files = 3, commits = 2,
      head_ref = ''feature'', base_ref = ''main'', html_url = ''u'', draft = False\<rparr>"

definition sample_range :: RangeDescriptor where
  "sample_range =
     \<lparr>since = Time 0, until = Time 2592000000, label = DateSpan (Time 0) (Time 2592000000)\<rparr>"

definition bob :: GitHubUser where
  "bob = \<lparr>login = ''bob'', avatar_url = None\<rparr>"

text \<open>
  Three pull requests: one by alice merged inside the sample range, one by bob never
  merged, one by alice merged before the range.
\<close>

definition three_prs :: "GitHubPullRequest list" where
  "three_prs =
     [sample_pr\<lparr>merged_at := Some 86400000\<rparr>,
      sample_pr\<lparr>pr_id := 2, pr_number := 2, user := Some bob\<rparr>,
      sample_pr\<lparr>pr_id := 3, pr_number := 3, merged_at := Some (- 5)\<rparr>]"

text \<open>Two pull requests by alice, neither merged, the second updated later.\<close>

definition two_open_prs :: "GitHubPullRequest list" where
  "two_open_prs =
     [sample_pr\<lparr>updated_at := 10\<rparr>,
      sample_pr\<lparr>pr_id := 2, pr_number := 2, updated_at := 20\<rparr>]"

text \<open>Two pull requests by alice in descending update order, the first merged in range.\<close>

definition two_desc_prs :: "GitHubPullRequest list" where
  "two_desc_prs =
     [sample_pr\<lparr>merged_at := Some 86400000, updated_at := 20\<rparr>,
      sample_pr\<lparr>pr_id := 2, pr_number := 2, updated_at := 10\<rparr>]"

text \<open>Two pull requests without a user, the first merged inside the sample range.\<close>

definition authorless_prs :: "GitHubPullRequest list" where
  "authorless_prs =
     [sample_pr\<lparr>user := None, merged_at := Some 86400000\<rparr>,
      sample_pr\<lparr>pr_id := 2, pr_number := 2, user := None\<rparr>]"

text \<open>
  A pull request merged two days before the sample range starts, and a platform whose
  first page of pull requests is full (50 items) and starts with that pull request, and
  whose second page holds one pull request. Its repository lookups are rejected.
\<close>

definition stale_pr :: GitHubPullRequest where
  "stale_pr = sample_pr\<lparr>pr_id := 9, pr_number := 9, merged_at := Some (- 172800000)\<rparr>"

definition sample_github :: GitHub where
  "sample_github =
     \<lparr>org_repos = (\<lambda>org page. Inr []),
      single_repo = (\<lambda>owner repo. Inl (FetchRejected ''fetch failed'')),
      lookup_settled = (\<lambda>owner repo. 0),
      repo_languages = (\<lambda>fullName. Inr []),
      pulls_page = (\<lambda>owner repo page.
         if page = 1 then Inr (stale_pr # replicate 49 sample_pr)
         else if page = 2 then Inr [sample_pr\<lparr>pr_id := 7, pr_number := 7\<rparr>]
         else Inr []),
      pull_detail = (\<lambda>owner repo number. Inr (sample_pr\<lparr>pr_id := number, pr_number := number\<rparr>))\<rparr>"


section \<open>Auxiliary notions for the aggregation loop\<close>

text \<open>
  The value of a numeric field of an author's record in the accumulator, 0 while the
  author has no record.
\<close>

definition entry_field :: "(EngineerMetric \<Rightarrow> 'a::zero) \<Rightarrow> AggState \<Rightarrow> string \<Rightarrow> 'a" where
  "entry_field f st a = (case map_of (engineerAccumulator st) a of Some e \<Rightarrow> f e | None \<Rightarrow> 0)"

text \<open>Keys are distinct and every record is stored under its own engineer name.\<close>

definition acc_ok :: "AggState \<Rightarrow> bool" where
  "acc_ok st \<longleftrightarrow> distinct (map fst (engineerAccumulator st))
     \<and> (\<forall>k e. map_of (engineerAccumulator st) k = Some e \<longrightarrow> engineer e = k)"

text \<open>The time of last activity stored for an author, if the author has a record.\<close>

definition last_of :: "AggState \<Rightarrow> string \<Rightarrow> timestamp option" where
  "last_of st a = map_option lastActive (map_of (engineerAccumulator st) a)"

section \<open>Properties of rounding to a double\<close>

lemma powi_pos: "0 < (2::rat) powi e"
  by (rule zero_less_power_int) simp

lemma powi_Suc: "(2::rat) powi (e + 1) = 2 * 2 powi e"
  by (simp add: power_int_add_1')

lemma powi_add: "(2::rat) powi (a + b) = 2 powi a * 2 powi b"
  by (simp add: power_int_add)

lemma powi_mono: "a \<le> b \<Longrightarrow> (2::rat) powi a \<le> 2 powi b"
  by (simp add: power_int_increasing)

lemma powi_less_iff: "(2::rat) powi a < 2 powi b \<longleftrightarrow> a < b"
proof
  assume "(2::rat) powi a < 2 powi b"
  show "a < b"
  proof (rule ccontr)
    assume "\<not> a < b"
    then have "(2::rat) powi b \<le> 2 powi a" by (intro powi_mono) simp
    with \<open>(2::rat) powi a < 2 powi b\<close> show False by simp
  qed
next
  assume "a < b"
  then show "(2::rat) powi a < 2 powi b"
    by (intro power_int_strict_increasing) simp_all
qed

lemma ilog2_bounds:
  assumes "0 < x"
  shows "2 powi ilog2 x \<le> x" and "x < 2 powi (ilog2 x + 1)"
proof -
  obtain p q where pq: "quotient_of x = (p, q)" by (cases "quotient_of x")
  then have q: "0 < q" and x: "x = of_int p / of_int q"
    by (auto dest: quotient_of_denom_pos quotient_of_div)
  with assms have p: "0 < p" by (simp add: zero_less_divide_iff)
  let ?e = "bitlen p - bitlen q"
  from bitlen_bounds [OF p] have p1: "2 ^ nat (bitlen p - 1) \<le> p" and p2: "p < 2 ^ nat (bitlen p)"
    by simp_all
  from bitlen_bounds [OF q] have q1: "2 ^ nat (bitlen q - 1) \<le> q" and q2: "q < 2 ^ nat (bitlen q)"
    by simp_all
  have bp: "1 \<le> bitlen p"
    using p bitlen_eq_zero_iff [of p] bitlen_nonneg [of p] by linarith
  have bq: "1 \<le> bitlen q"
    using q bitlen_eq_zero_iff [of q] bitlen_nonneg [of q] by linarith
  have P1: "(2::rat) powi (bitlen p - 1) \<le> of_int p"
  proof -
    have "(2::rat) powi (bitlen p - 1) = 2 ^ nat (bitlen p - 1)"
      using bp by (simp add: power_int_def)
    also have "\<dots> = of_int (2 ^ nat (bitlen p - 1))" by simp
    also have "\<dots> \<le> of_int p" using p1 by (simp only: of_int_le_iff)
    finally show ?thesis .
  qed
  have P2: "of_int p < (2::rat) powi (bitlen p)"
  proof -
    have "(of_int p :: rat) < of_int (2 ^ nat (bitlen p))" using p2 by (simp only: of_int_less_iff)
    also have "\<dots> = 2 ^ nat (bitlen p)" by simp
    also have "\<dots> = (2::rat) powi (bitlen p)" using bp by (simp add: power_int_def)
    finally show ?thesis .
  qed
  have Q1: "(2::rat) powi (bitlen q - 1) \<le> of_int q"
  proof -
    have "(2::rat) powi (bitlen q - 1) = 2 ^ nat (bitlen q - 1)"
      using bq by (simp add: power_int_def)
    also have "\<dots> = of_int (2 ^ nat (bitlen q - 1))" by simp
    also have "\<dots> \<le> of_int q" using q1 by (simp only: of_int_le_iff)
    finally show ?thesis .
  qed
  have Q2: "of_int q < (2::rat) powi (bitlen q)"
  proof -
    have "(of_int q :: rat) < of_int (2 ^ nat (bitlen q))" using q2 by (simp only: of_int_less_iff)
    also have "\<dots> = 2 ^ nat (bitlen q)" by simp
    also have "\<dots> = (2::rat) powi (bitlen q)" using bq by (simp add: power_int_def)
    finally show ?thesis .
  qed
  have qpos: "(0::rat) < of_int q" using q by simp
  have lower: "(2::rat) powi (?e - 1) \<le> x"
  proof -
    have "(2::rat) powi (?e - 1) * of_int q \<le> 2 powi (?e - 1) * 2 powi (bitlen q)"
      using Q2 powi_pos [of "?e - 1"] by (simp add: mult_le_cancel_left_pos)
    also have "\<dots> = 2 powi (?e - 1 + bitlen q)" by (rule powi_add [symmetric])
    also have "\<dots> = 2 powi (bitlen p - 1)"
    proof -
      have "?e - 1 + bitlen q = bitlen p - 1" by simp
      then show ?thesis by (simp only:)
    qed
    also have "\<dots> \<le> of_int p" by (rule P1)
    finally show ?thesis unfolding x using qpos by (simp add: pos_le_divide_eq)
  qed
  have upper: "x < (2::rat) powi (?e + 1)"
  proof -
    have "of_int p < (2::rat) powi (bitlen p)" by (rule P2)
    also have "\<dots> = 2 powi (?e + 1 + (bitlen q - 1))"
    proof -
      have "bitlen p = ?e + 1 + (bitlen q - 1)" by simp
      then show ?thesis by (simp only:)
    qed
    also have "\<dots> = 2 powi (?e + 1) * 2 powi (bitlen q - 1)"
      by (rule powi_add)
    also have "\<dots> \<le> 2 powi (?e + 1) * of_int q"
      using Q1 powi_pos [of "?e + 1"] by (simp add: mult_le_cancel_left_pos)
    finally show ?thesis unfolding x using qpos by (simp add: pos_divide_less_eq)
  qed
  have il: "ilog2 x = (if 2 powi ?e \<le> x then ?e else ?e - 1)"
    by (simp add: ilog2_def pq Let_def)
  show "2 powi ilog2 x \<le> x" using lower by (simp add: il)
  show "x < 2 powi (ilog2 x + 1)" using upper by (auto simp: il not_le)
qed

lemma ilog2_less: "0 < x \<Longrightarrow> x < 2 powi n \<Longrightarrow> ilog2 x < n"
  using ilog2_bounds(1) [of x] powi_less_iff [of "ilog2 x" n] by simp

lemma ilog2_ge: "0 < x \<Longrightarrow> 2 powi n \<le> x \<Longrightarrow> n \<le> ilog2 x"
proof -
  assume a: "0 < x" "2 powi n \<le> x"
  then have "(2::rat) powi n < 2 powi (ilog2 x + 1)" using ilog2_bounds(2) [of x] by simp
  then show ?thesis by (simp add: powi_less_iff)
qed

lemma ilog2_mono: "0 < x \<Longrightarrow> x \<le> y \<Longrightarrow> ilog2 x \<le> ilog2 y"
  using ilog2_bounds(1) [of x] by (intro ilog2_ge) auto

lemma round_half_even_of_int: "round_half_even (of_int k) = k"
  by (simp add: round_half_even_def)

lemma round_half_even_cases:
  "round_half_even x = \<lfloor>x\<rfloor> \<or> round_half_even x = \<lfloor>x\<rfloor> + 1"
  by (simp add: round_half_even_def Let_def)

lemma round_half_even_error: "\<bar>of_int (round_half_even x) - x\<bar> \<le> 1 / 2"
proof -
  have "of_int \<lfloor>x\<rfloor> \<le> x" "x < of_int \<lfloor>x\<rfloor> + 1" by linarith+
  then show ?thesis
    by (auto simp: round_half_even_def Let_def abs_le_iff)
qed

lemma round_half_even_mono:
  assumes "x \<le> y"
  shows "round_half_even x \<le> round_half_even y"
proof (cases "\<lfloor>x\<rfloor> = \<lfloor>y\<rfloor>")
  case True
  with assms have "x - of_int \<lfloor>x\<rfloor> \<le> y - of_int \<lfloor>y\<rfloor>" by simp
  then show ?thesis
    using True by (auto simp: round_half_even_def Let_def)
next
  case False
  with assms have "\<lfloor>x\<rfloor> + 1 \<le> \<lfloor>y\<rfloor>" using floor_mono [OF assms] by linarith
  moreover have "round_half_even x \<le> \<lfloor>x\<rfloor> + 1"
    using round_half_even_cases [of x] by linarith
  moreover have "\<lfloor>y\<rfloor> \<le> round_half_even y"
    using round_half_even_cases [of y] by linarith
  ultimately show ?thesis by linarith
qed

lemma round_to_double_neg: "round_to_double (- x) = - round_to_double x"
  by (simp add: round_to_double_def Let_def sgn_minus)

lemma round_to_double_pos_eq:
  "0 < x \<Longrightarrow>
   round_to_double x
     = of_int (round_half_even (x / 2 powi (ilog2 x - 52))) * 2 powi (ilog2 x - 52)"
  by (simp add: round_to_double_def Let_def)

text \<open>A positive number scaled by the unit of its binade lies in [2^52, 2^53).\<close>

lemma scaled_bounds:
  assumes "0 < x"
  shows "2 ^ 52 \<le> x / 2 powi (ilog2 x - 52)" and "x / 2 powi (ilog2 x - 52) < 2 ^ 53"
proof -
  let ?u = "(2::rat) powi (ilog2 x - 52)"
  have u: "0 < ?u" by (rule powi_pos)
  have a: "2 ^ 52 * ?u = 2 powi ilog2 x"
  proof -
    have "(2::rat) ^ 52 = 2 powi 52" by (simp add: power_int_def)
    then have "2 ^ 52 * ?u = 2 powi 52 * ?u" by simp
    also have "\<dots> = 2 powi (52 + (ilog2 x - 52))" by (rule powi_add [symmetric])
    finally show ?thesis by simp
  qed
  have b: "2 ^ 53 * ?u = 2 powi (ilog2 x + 1)"
  proof -
    have "(2::rat) ^ 53 = 2 powi 53" by (simp add: power_int_def)
    then have "2 ^ 53 * ?u = 2 powi 53 * ?u" by simp
    also have "\<dots> = 2 powi (53 + (ilog2 x - 52))" by (rule powi_add [symmetric])
    finally show ?thesis by (simp add: algebra_simps)
  qed
  show "2 ^ 52 \<le> x / ?u"
    using ilog2_bounds(1) [OF assms] u a by (simp add: pos_le_divide_eq)
  show "x / ?u < 2 ^ 53"
    using ilog2_bounds(2) [OF assms] u b by (simp add: pos_divide_less_eq)
qed

lemma round_to_double_binade:
  assumes "0 < x"
  shows "2 powi ilog2 x \<le> round_to_double x" and "round_to_double x \<le> 2 powi (ilog2 x + 1)"
proof -
  let ?u = "(2::rat) powi (ilog2 x - 52)"
  let ?n = "round_half_even (x / ?u)"
  have u: "0 < ?u" by (rule powi_pos)
  have "round_half_even (of_int (2 ^ 52)) \<le> ?n"
    using scaled_bounds(1) [OF assms] by (intro round_half_even_mono) simp
  then have lo: "2 ^ 52 \<le> ?n" by (simp only: round_half_even_of_int)
  have "?n \<le> round_half_even (of_int (2 ^ 53))"
    using scaled_bounds(2) [OF assms] by (intro round_half_even_mono) simp
  then have hi: "?n \<le> 2 ^ 53" by (simp only: round_half_even_of_int)
  have a: "2 ^ 52 * ?u = 2 powi ilog2 x"
  proof -
    have "(2::rat) ^ 52 = 2 powi 52" by (simp add: power_int_def)
    then have "2 ^ 52 * ?u = 2 powi 52 * ?u" by simp
    also have "\<dots> = 2 powi (52 + (ilog2 x - 52))" by (rule powi_add [symmetric])
    finally show ?thesis by simp
  qed
  have b: "2 ^ 53 * ?u = 2 powi (ilog2 x + 1)"
  proof -
    have "(2::rat) ^ 53 = 2 powi 53" by (simp add: power_int_def)
    then have "2 ^ 53 * ?u = 2 powi 53 * ?u" by simp
    also have "\<dots> = 2 powi (53 + (ilog2 x - 52))" by (rule powi_add [symmetric])
    finally show ?thesis by (simp add: algebra_simps)
  qed
  have "(2::rat) ^ 52 \<le> of_int ?n" using lo by (metis of_int_le_iff of_int_numeral of_int_power)
  then have "2 ^ 52 * ?u \<le> of_int ?n * ?u" using u by (simp add: mult_le_cancel_right_pos)
  then show "2 powi ilog2 x \<le> round_to_double x"
    by (simp only: a round_to_double_pos_eq [OF assms])
  have "of_int ?n \<le> (2::rat) ^ 53" using hi by (metis of_int_le_iff of_int_numeral of_int_power)
  then have "of_int ?n * ?u \<le> 2 ^ 53 * ?u" using u by (simp add: mult_le_cancel_right_pos)
  then show "round_to_double x \<le> 2 powi (ilog2 x + 1)"
    by (simp only: b round_to_double_pos_eq [OF assms])
qed

lemma round_to_double_pos: "0 < x \<Longrightarrow> 0 < round_to_double x"
  using round_to_double_binade(1) [of x] powi_pos [of "ilog2 x"] by linarith

lemma round_to_double_nonneg: "0 \<le> x \<Longrightarrow> 0 \<le> round_to_double x"
  using round_to_double_pos [of x] by (cases "x = 0") (simp_all add: round_to_double_def)

lemma round_to_double_mono_pos:
  assumes "0 < x" and "x \<le> y"
  shows "round_to_double x \<le> round_to_double y"
proof -
  from assms have y: "0 < y" by simp
  show ?thesis
  proof (cases "ilog2 x = ilog2 y")
    case True
    let ?u = "(2::rat) powi (ilog2 y - 52)"
    have u: "0 < ?u" by (rule powi_pos)
    have "x / ?u \<le> y / ?u" using assms u by (simp add: divide_right_mono)
    then have "round_half_even (x / ?u) \<le> round_half_even (y / ?u)"
      by (rule round_half_even_mono)
    then have "(of_int (round_half_even (x / ?u)) :: rat) \<le> of_int (round_half_even (y / ?u))"
      by (simp only: of_int_le_iff)
    then have "of_int (round_half_even (x / ?u)) * ?u \<le> of_int (round_half_even (y / ?u)) * ?u"
      using u by (simp add: mult_le_cancel_right_pos)
    then show ?thesis
      by (simp only: round_to_double_pos_eq [OF assms(1)] round_to_double_pos_eq [OF y] True)
  next
    case False
    with ilog2_mono [OF assms] have "ilog2 x + 1 \<le> ilog2 y" by simp
    then have "(2::rat) powi (ilog2 x + 1) \<le> 2 powi ilog2 y" by (rule powi_mono)
    with round_to_double_binade(2) [OF assms(1)] round_to_double_binade(1) [OF y]
    show ?thesis by linarith
  qed
qed

lemma round_to_double_mono:
  assumes "0 \<le> x" and "x \<le> y"
  shows "round_to_double x \<le> round_to_double y"
proof (cases "x = 0")
  case True
  with assms show ?thesis using round_to_double_nonneg [of y] by (simp add: round_to_double_def)
next
  case False
  with assms show ?thesis by (intro round_to_double_mono_pos) simp_all
qed

text \<open>A number with a significand of at most 53 bits is a double and rounds to itself.\<close>

lemma round_to_double_exact_pos:
  assumes "0 < k" and "k \<le> 2 ^ 53"
  shows "round_to_double (of_int k * 2 powi j) = of_int k * 2 powi j"
proof -
  let ?x = "of_int k * (2::rat) powi j"
  have x: "0 < ?x" using assms(1) powi_pos [of j] by simp
  let ?m = "j - (ilog2 ?x - 52)"
  let ?u = "(2::rat) powi (ilog2 ?x - 52)"
  have u: "0 < ?u" by (rule powi_pos)
  have q: "?x / ?u = of_int k * 2 powi ?m"
    by (simp add: power_int_diff)
  have "\<exists>n. ?x / ?u = of_int n"
  proof (cases "0 \<le> ?m")
    case True
    then have "(2::rat) powi ?m = of_int (2 ^ nat ?m)" by (simp add: power_int_def)
    then have "?x / ?u = of_int (k * 2 ^ nat ?m)" unfolding q by simp
    then show ?thesis ..
  next
    case False
    then have "?m \<le> - 1" by simp
    then have "(2::rat) powi ?m \<le> 2 powi (- 1)" by (rule powi_mono)
    then have h: "(2::rat) powi ?m \<le> 1 / 2" by simp
    have "(of_int k :: rat) \<le> 2 ^ 53"
      using assms(2) by (metis of_int_le_iff of_int_numeral of_int_power)
    moreover have "(0::rat) < of_int k" using assms(1) by simp
    ultimately have "of_int k * (2::rat) powi ?m \<le> 2 ^ 53 * (1 / 2)"
      using h powi_pos [of ?m] by (intro mult_mono) simp_all
    then have "?x / ?u \<le> 2 ^ 52" unfolding q by simp
    with scaled_bounds(1) [OF x] have "?x / ?u = of_int (2 ^ 52)" by simp
    then show ?thesis ..
  qed
  then obtain n where n: "?x / ?u = of_int n" ..
  then have "of_int (round_half_even (?x / ?u)) * ?u = ?x / ?u * ?u"
    by (simp only: round_half_even_of_int)
  also have "\<dots> = ?x" using u by simp
  finally show ?thesis by (simp only: round_to_double_pos_eq [OF x])
qed

lemma round_to_double_of_int:
  assumes "\<bar>k\<bar> \<le> 2 ^ 53"
  shows "round_to_double (of_int k) = of_int k"
proof -
  have p: "round_to_double (of_int n) = of_int n" if "0 < n" "n \<le> 2 ^ 53" for n
    using round_to_double_exact_pos [OF that, of 0] by simp
  consider "k = 0" | "0 < k" | "k < 0" by linarith
  then show ?thesis
  proof cases
    case 1
    then show ?thesis by (simp add: round_to_double_def)
  next
    case 2
    with assms show ?thesis by (intro p) simp_all
  next
    case 3
    with assms have "round_to_double (of_int (- k)) = of_int (- k)" by (intro p) simp_all
    then show ?thesis using round_to_double_neg [of "of_int k"] by simp
  qed
qed

lemma round_to_double_half:
  assumes "0 < k" and "k \<le> 2 ^ 53"
  shows "round_to_double (of_int k / 2) = of_int k / 2"
  using round_to_double_exact_pos [OF assms, of "- 1"] by simp

lemma round_to_double_error:
  assumes "0 < x"
  shows "\<bar>round_to_double x - x\<bar> \<le> 2 powi (ilog2 x - 53)"
proof -
  let ?u = "(2::rat) powi (ilog2 x - 52)"
  have u: "0 < ?u" by (rule powi_pos)
  have "\<bar>round_to_double x - x\<bar> = \<bar>of_int (round_half_even (x / ?u)) - x / ?u\<bar> * ?u"
  proof -
    have "round_to_double x - x = (of_int (round_half_even (x / ?u)) - x / ?u) * ?u"
      using u by (simp add: round_to_double_pos_eq [OF assms] algebra_simps)
    then show ?thesis using u by (simp add: abs_mult)
  qed
  also have "\<dots> \<le> 1 / 2 * ?u"
    using round_half_even_error [of "x / ?u"] u by (intro mult_right_mono) simp_all
  also have "\<dots> = 2 powi (ilog2 x - 53)"
  proof -
    have "(2::rat) powi (ilog2 x - 52) = 2 powi (1 + (ilog2 x - 53))" by simp
    also have "\<dots> = 2 * 2 powi (ilog2 x - 53)" by (simp only: powi_add) simp
    finally show ?thesis by simp
  qed
  finally show ?thesis .
qed

section \<open>Properties of \<open>Math.round\<close>\<close>

lemma js_round_mono: "x \<le> y \<Longrightarrow> js_round x \<le> js_round y"
  by (simp add: js_round_def floor_mono)

lemma js_round_ge: "of_int z \<le> x \<Longrightarrow> z \<le> js_round x"
  unfolding js_round_def le_floor_iff by simp

lemma js_round_le: "x \<le> of_int z \<Longrightarrow> js_round x \<le> z"
  unfolding js_round_def by (simp add: floor_le_iff)

lemma js_round_of_int: "js_round (of_int z) = z"
  unfolding js_round_def by linarith

lemma js_round_quotient:
  assumes "0 < b"
  shows "js_round (of_int a / of_int b) = (2 * a + b) div (2 * b)"
proof -
  have "(of_int a / of_int b + 1 / 2 :: rat) = of_int (2 * a + b) / of_int (2 * b)"
    using assms by (simp add: field_simps)
  then show ?thesis
    unfolding js_round_def by (simp only: floor_divide_of_int_eq)
qed

section \<open>Properties of the Range Resolver\<close>

lemma ms_per_day: "MILLISECONDS_PER_DAY = 86400000"
  by (simp add: MILLISECONDS_PER_DAY_def)

lemma whole_days_div: "(k * 86400000 + 43200000) div 86400000 = (k::int)"
  by simp

text \<open>
  Up to a distance of \<open>2 ^ 53\<close> milliseconds the rounding of the quotient to a double does
  not move it across a half: the quotient is at least one part in 86400000 below the
  next half, and its rounding error is at most \<open>2 ^ - 27\<close>.
\<close>

lemma nearest_day:
  assumes "0 \<le> d" and "d \<le> 2 ^ 53"
  shows "js_round (round_to_double (of_int d / 86400000)) = (d + 43200000) div 86400000"
proof -
  define n where "n = (d + 43200000) div 86400000"
  define q :: rat where "q = of_int d / 86400000"
  have dm: "d + 43200000 = n * 86400000 + (d + 43200000) mod 86400000"
    unfolding n_def by simp
  have m0: "0 \<le> (d + 43200000) mod 86400000" by simp
  have m1: "(d + 43200000) mod 86400000 < 86400000" by simp
  have lo_int: "n * 86400000 - 43200000 \<le> d" using dm m0 by linarith
  have hi_int: "d \<le> n * 86400000 + 43200000 - 1" using dm m1 by linarith
  have n0: "0 \<le> n" unfolding n_def using assms(1) by (simp add: pos_imp_zdiv_nonneg_iff)
  have q0: "0 \<le> q" unfolding q_def using assms(1) by simp
  have A: "of_int n - 1 / 2 \<le> q"
  proof -
    have "(of_int (n * 86400000 - 43200000) :: rat) \<le> of_int d"
      using lo_int by (simp only: of_int_le_iff)
    then show ?thesis unfolding q_def by (simp add: pos_le_divide_eq algebra_simps)
  qed
  have B: "q + 1 / 86400000 \<le> of_int n + 1 / 2"
  proof -
    have "(of_int d :: rat) \<le> of_int (n * 86400000 + 43200000 - 1)"
      using hi_int by (simp only: of_int_le_iff)
    then show ?thesis unfolding q_def by (simp add: field_simps)
  qed
  have lower: "of_int n - 1 / 2 \<le> round_to_double q"
  proof (cases "n = 0")
    case True
    then show ?thesis using round_to_double_nonneg [OF q0] by simp
  next
    case False
    with n0 have k0: "0 < 2 * n - 1" by simp
    have "n * 86400000 \<le> 2 ^ 53 + 43200000" using lo_int assms(2) by linarith
    then have k1: "2 * n - 1 \<le> 2 ^ 53" using n0 by simp
    have e: "round_to_double (of_int (2 * n - 1) / 2) = of_int (2 * n - 1) / 2"
      by (rule round_to_double_half [OF k0 k1])
    have h: "(of_int (2 * n - 1) :: rat) / 2 = of_int n - 1 / 2" by simp
    have "round_to_double (of_int n - 1 / 2) \<le> round_to_double q"
      using A k0 by (intro round_to_double_mono) (simp_all add: h [symmetric])
    then show ?thesis using e by (simp only: h)
  qed
  have upper: "round_to_double q < of_int n + 1 / 2"
  proof (cases "q = 0")
    case True
    then show ?thesis using n0 by (simp add: round_to_double_def)
  next
    case False
    with q0 have qp: "0 < q" by simp
    have "(of_int d :: rat) \<le> of_int (2 ^ 53)" using assms(2) by (simp only: of_int_le_iff)
    then have "q < 2 ^ 27" unfolding q_def by simp
    also have "(2::rat) ^ 27 = 2 powi 27" by (simp add: power_int_def)
    finally have "ilog2 q < 27" using qp by (intro ilog2_less)
    then have "(2::rat) powi (ilog2 q - 53) \<le> 2 powi (- 27)" by (intro powi_mono) simp
    with round_to_double_error [OF qp] have "\<bar>round_to_double q - q\<bar> \<le> 2 powi (- 27)"
      by linarith
    moreover have "(2::rat) powi (- 27) < 1 / 86400000" by (simp add: power_int_minus)
    ultimately have "round_to_double q < q + 1 / 86400000" by linarith
    with B show ?thesis by linarith
  qed
  have "\<lfloor>round_to_double q + 1 / 2\<rfloor> = n"
    using lower upper by (intro floor_unique) linarith+
  then show ?thesis by (simp add: js_round_def q_def n_def)
qed

lemma getRangeDayCount_times:
  assumes "since rng = Time s" and "until rng = Time u"
  shows "getRangeDayCount rng =
           Finite (of_int (max 1 (js_round (round_to_double
             (\<bar>round_to_double (of_int (u - s))\<bar> / 86400000)))))"
  using assms by (simp add: getRangeDayCount_def Let_def js_minus_def ms_per_day)

lemma getRangeDayCount_invalid:
  assumes "since rng = InvalidDate \<or> until rng = InvalidDate"
  shows "getRangeDayCount rng = NaN"
  using assms
  by (cases "since rng"; cases "until rng") (simp_all add: getRangeDayCount_def Let_def js_minus_def)

lemma getRangeDayCount_near:
  assumes "since rng = Time s" and "until rng = Time u" and "\<bar>u - s\<bar> \<le> 2 ^ 53"
  shows "getRangeDayCount rng = Finite (of_int (max 1 ((\<bar>u - s\<bar> + 43200000) div 86400000)))"
proof -
  have "round_to_double (of_int (u - s)) = of_int (u - s)"
    by (rule round_to_double_of_int [OF assms(3)])
  then have "\<bar>round_to_double (of_int (u - s))\<bar> = (of_int \<bar>u - s\<bar> :: rat)" by simp
  moreover have "js_round (round_to_double (of_int \<bar>u - s\<bar> / 86400000))
                   = (\<bar>u - s\<bar> + 43200000) div 86400000"
    using assms(3) by (intro nearest_day) simp_all
  ultimately show ?thesis
    by (simp only: getRangeDayCount_times [OF assms(1,2)])
qed

lemma coerceRange_bounds: "7 \<le> coerceRange x \<and> coerceRange x \<le> 90"
  by (cases x) (auto simp: DEFAULT_RANGE_DAYS_def)

lemma day_count_of_window:
  assumes "1 \<le> d" and "d \<le> 90"
  shows "getRangeDayCount
           \<lparr>since = Time (now - d * 24 * 60 * 60 * 1000), until = Time now, label = l\<rparr>
         = Finite (of_int d)"
proof -
  have a: "\<bar>now - (now - d * 24 * 60 * 60 * 1000)\<bar> = d * 86400000" using assms by simp
  have b: "d * 86400000 \<le> 2 ^ 53" using assms by simp
  have c: "max 1 ((d * 86400000 + 43200000) div 86400000) = d"
    using assms by (simp only: whole_days_div max_absorb2)
  have "getRangeDayCount
          \<lparr>since = Time (now - d * 24 * 60 * 60 * 1000), until = Time now, label = l\<rparr>
        = Finite (of_int (max 1
            ((\<bar>now - (now - d * 24 * 60 * 60 * 1000)\<bar> + 43200000) div 86400000)))"
    using assms by (intro getRangeDayCount_near) simp_all
  then show ?thesis by (simp only: a c)
qed


text \<open>
  C6. A day-count input that is not a finite number (NaN or an infinity) or that is at most
  0 resolves to the default of 30 days; a positive finite input resolves to its integer
  part clamped to between 7 and 90; the resolved count is always between 7 and 90; and
  whenever the range is built from the day count (an explicit bound is missing), the
  range ends at the clock reading, starts exactly that many days earlier, and
  \<open>getRangeDayCount\<close> returns that count.
\<close>

theorem coerce_range_resolved:
  "(\<not> isFinite x \<longrightarrow> coerceRange x = 30)
   \<and> (v \<le> 0 \<longrightarrow> coerceRange (Finite v) = 30)
   \<and> (0 < v \<longrightarrow> coerceRange (Finite v) = min 90 (max 7 \<lfloor>v\<rfloor>))
   \<and> 7 \<le> coerceRange x \<and> coerceRange x \<le> 90
   \<and> (since_opt = None \<or> until_opt = None \<longrightarrow>
        since (computeRangeDescriptor now since_opt until_opt x)
          = Time (now - coerceRange x * MILLISECONDS_PER_DAY)
        \<and> until (computeRangeDescriptor now since_opt until_opt x) = Time now
        \<and> getRangeDayCount (computeRangeDescriptor now since_opt until_opt x)
            = Finite (of_int (coerceRange x)))"
proof -
  have a: "\<not> isFinite x \<longrightarrow> coerceRange x = 30"
    by (cases x) (simp_all add: DEFAULT_RANGE_DAYS_def)
  have b: "7 \<le> coerceRange x \<and> coerceRange x \<le> 90" by (rule coerceRange_bounds)
  have c: "computeRangeDescriptor now since_opt until_opt x =
             \<lparr>since = Time (now - coerceRange x * 24 * 60 * 60 * 1000), until = Time now,
              label = LastDays (coerceRange x)\<rparr>"
    if "since_opt = None \<or> until_opt = None"
    using that by (auto simp: computeRangeDescriptor_def Let_def split: option.splits)
  have d: "getRangeDayCount (computeRangeDescriptor now since_opt until_opt x)
             = Finite (of_int (coerceRange x))"
    if "since_opt = None \<or> until_opt = None"
    unfolding c[OF that] using b by (intro day_count_of_window) simp_all
  have e: "since (computeRangeDescriptor now since_opt until_opt x)
             = Time (now - coerceRange x * MILLISECONDS_PER_DAY)
           \<and> until (computeRangeDescriptor now since_opt until_opt x) = Time now"
    if "since_opt = None \<or> until_opt = None"
    unfolding c[OF that] by (simp add: MILLISECONDS_PER_DAY_def)
  show ?thesis using a b d e by (simp add: DEFAULT_RANGE_DAYS_def)
qed

theorem coerce_range_resolved_witness:
  "\<not> isFinite NaN \<and> coerceRange NaN = 30
   \<and> coerceRange (Finite (- 3)) = 30 \<and> coerceRange (Finite (25 / 2)) = 12
   \<and> getRangeDayCount (computeRangeDescriptor 1000000000000 None None (Finite (25 / 2)))
       = Finite 12"
proof -
  have f: "\<lfloor>25 / 2 :: rat\<rfloor> = 12" by linarith
  show ?thesis
    using coerce_range_resolved
            [where x = NaN and v = "- 3" and since_opt = None and until_opt = None
               and now = 1000000000000]
          coerce_range_resolved
            [where x = "Finite (25 / 2)" and v = "25 / 2" and since_opt = None
               and until_opt = None and now = 1000000000000]
    by (simp add: f)
qed

text \<open>
  C7, as the code has it. For a range whose bounds are time values at most \<open>2 ^ 53\<close>
  milliseconds apart, \<open>getRangeDayCount\<close> returns the distance between \<open>since\<close> and
  \<open>until\<close> in days rounded to the nearest integer (a half day rounds up), and at least 1;
  on a distance of a whole number of days it returns that number (or 1 for a distance
  of 0). For a range with a bound that is an invalid date it returns NaN.
\<close>

theorem range_day_count_nearest:
  "(since rng = Time s \<and> until rng = Time u \<and> \<bar>u - s\<bar> \<le> 2 ^ 53 \<longrightarrow>
      getRangeDayCount rng = Finite (of_int (max 1 ((\<bar>u - s\<bar> + 43200000) div 86400000)))
      \<and> (\<bar>u - s\<bar> = k * 86400000 \<longrightarrow> getRangeDayCount rng = Finite (of_int (max 1 k))))
   \<and> (since rng = InvalidDate \<or> until rng = InvalidDate \<longrightarrow> getRangeDayCount rng = NaN)"
proof -
  have n: "getRangeDayCount rng = Finite (of_int (max 1 ((\<bar>u - s\<bar> + 43200000) div 86400000)))"
    if "since rng = Time s" "until rng = Time u" "\<bar>u - s\<bar> \<le> 2 ^ 53"
    using that by (rule getRangeDayCount_near)
  have w: "getRangeDayCount rng = Finite (of_int (max 1 k))"
    if "since rng = Time s" "until rng = Time u" "\<bar>u - s\<bar> \<le> 2 ^ 53" "\<bar>u - s\<bar> = k * 86400000"
    using n [OF that(1-3)] by (simp only: that(4) whole_days_div)
  have i: "getRangeDayCount rng = NaN" if "since rng = InvalidDate \<or> until rng = InvalidDate"
    using that by (rule getRangeDayCount_invalid)
  show ?thesis using n w i by blast
qed

text \<open>A range of three days, and a range whose start is not a date.\<close>

theorem range_day_count_nearest_witness:
  "\<bar>345600000 - 86400000\<bar> \<le> (2 :: int) ^ 53
   \<and> \<bar>345600000 - 86400000\<bar> = (3 :: int) * 86400000
   \<and> getRangeDayCount
        \<lparr>since = Time 86400000, until = Time 345600000,
         label = DateSpan (Time 86400000) (Time 345600000)\<rparr> = Finite 3
   \<and> getRangeDayCount
        \<lparr>since = InvalidDate, until = Time 345600000,
         label = DateSpan InvalidDate (Time 345600000)\<rparr> = NaN"
  using range_day_count_nearest
    [of "\<lparr>since = Time 86400000, until = Time 345600000,
          label = DateSpan (Time 86400000) (Time 345600000)\<rparr>" 86400000 345600000 3]
    range_day_count_nearest
    [of "\<lparr>since = InvalidDate, until = Time 345600000,
          label = DateSpan InvalidDate (Time 345600000)\<rparr>" 0 0 0]
  by simp

text \<open>
  C7, as the specification words it (rounded down), fails: a range of one and a half days
  has one whole day, and \<open>getRangeDayCount\<close> returns 2.
\<close>

theorem range_day_count_not_floor:
  "getRangeDayCount
     \<lparr>since = Time 0, until = Time 129600000, label = DateSpan (Time 0) (Time 129600000)\<rparr>
   \<noteq> Finite (of_int (whole_days_floor 0 129600000))"
proof -
  have "getRangeDayCount
          \<lparr>since = Time 0, until = Time 129600000, label = DateSpan (Time 0) (Time 129600000)\<rparr>
        = Finite (of_int (max 1 ((\<bar>129600000 - 0\<bar> + 43200000) div 86400000)))"
    by (rule getRangeDayCount_near) simp_all
  then show ?thesis
    by (simp add: whole_days_floor_def ms_per_day)
qed

text \<open>
  Beyond \<open>2 ^ 53\<close> milliseconds the difference of the two time values is itself rounded:
  a distance one millisecond short of 104250000 and a half days is taken up to the half,
  and the count is 104250001.
\<close>

lemma day_count_of_a_rounded_distance:
  "getRangeDayCount
     \<lparr>since = Time (- 4503600021600000), until = Time 4503600021599999,
      label = DateSpan (Time (- 4503600021600000)) (Time 4503600021599999)\<rparr>
   = Finite 104250001"
  by code_simp

section \<open>Properties of the Impact Scorer\<close>

lemma round_to_double_le_int:
  assumes "0 \<le> x" and "x \<le> of_int k" and "k \<le> 2 ^ 53"
  shows "round_to_double x \<le> of_int k"
proof -
  from assms(1,2) have "(0::rat) \<le> of_int k" by linarith
  then have "0 \<le> k" by simp
  with assms(3) have "\<bar>k\<bar> \<le> 2 ^ 53" by simp
  then have "round_to_double (of_int k) = of_int k" by (rule round_to_double_of_int)
  with round_to_double_mono [OF assms(1,2)] show ?thesis by simp
qed

lemma round_to_double_ge_int:
  assumes "0 \<le> k" and "of_int k \<le> x" and "k \<le> 2 ^ 53"
  shows "of_int k \<le> round_to_double x"
proof -
  from assms(1,3) have "\<bar>k\<bar> \<le> 2 ^ 53" by simp
  then have "round_to_double (of_int k) = of_int k" by (rule round_to_double_of_int)
  moreover have "round_to_double (of_int k) \<le> round_to_double x"
    using assms(1,2) by (intro round_to_double_mono) simp_all
  ultimately show ?thesis by simp
qed

lemma double_nine_tenths: "round_to_double (9 / 10) = 8106479329266893 / 9007199254740992"
  by code_simp

text \<open>A capped size divided by its cap, as a double, lies between 0 and 1.\<close>

lemma factor_bounds:
  assumes "0 < c"
  shows "0 \<le> round_to_double (of_nat (min c s) / of_nat c)"
    and "round_to_double (of_nat (min c s) / of_nat c) \<le> 1"
proof -
  have q0: "(0::rat) \<le> of_nat (min c s) / of_nat c" by simp
  have q1: "(of_nat (min c s) :: rat) / of_nat c \<le> of_int 1"
    using assms by (simp add: pos_divide_le_eq)
  show "0 \<le> round_to_double (of_nat (min c s) / of_nat c)"
    by (rule round_to_double_nonneg [OF q0])
  show "round_to_double (of_nat (min c s) / of_nat c) \<le> 1"
    using round_to_double_le_int [OF q0 q1] by simp
qed

lemma factor_mono:
  assumes "0 < c" and "s \<le> s'"
  shows "round_to_double (of_nat (min c s) / of_nat c)
           \<le> round_to_double (of_nat (min c s') / of_nat c)"
proof -
  have "(of_nat (min c s) :: rat) \<le> of_nat (min c s')" using assms(2) by simp
  then have "(of_nat (min c s) :: rat) / of_nat c \<le> of_nat (min c s') / of_nat c"
    using assms(1) by (simp add: divide_right_mono)
  then show ?thesis by (intro round_to_double_mono) simp_all
qed

text \<open>A weight times a factor between 0 and 1, as a double, lies between 0 and the weight.\<close>

lemma term_bounds:
  assumes "0 \<le> w" and "w \<le> 2 ^ 53" and "0 \<le> x" and "x \<le> 1"
  shows "0 \<le> round_to_double (of_int w * x)" and "round_to_double (of_int w * x) \<le> of_int w"
proof -
  have w: "(0::rat) \<le> of_int w" using assms(1) by simp
  have p0: "0 \<le> of_int w * x" using w assms(3) by simp
  have p1: "of_int w * x \<le> of_int w" using w assms(4) by (simp add: mult_left_le)
  show "0 \<le> round_to_double (of_int w * x)" by (rule round_to_double_nonneg [OF p0])
  show "round_to_double (of_int w * x) \<le> of_int w"
    by (rule round_to_double_le_int [OF p0 p1 assms(2)])
qed

lemma term_mono:
  assumes "0 \<le> w" and "0 \<le> x" and "x \<le> y"
  shows "round_to_double (of_int w * x) \<le> round_to_double (of_int w * y)"
proof -
  have w: "(0::rat) \<le> of_int w" using assms(1) by simp
  have "of_int w * x \<le> of_int w * y" using w assms(3) by (simp add: mult_left_mono)
  moreover have "0 \<le> of_int w * x" using w assms(2) by simp
  ultimately show ?thesis by (intro round_to_double_mono)
qed

lemma weighted_sum_bounds: "0 \<le> weighted_sum s f c" "weighted_sum s f c \<le> 100"
proof -
  let ?a = "round_to_double (50 * round_to_double (of_nat (min 30 s) / 30))"
  let ?b = "round_to_double (30 * round_to_double (of_nat (min 20 f) / 20))"
  let ?c = "round_to_double (20 * round_to_double (of_nat (min 10 c) / 10))"
  have a: "0 \<le> ?a" "?a \<le> 50"
    using term_bounds [of 50, OF _ _ factor_bounds [of 30 s]] by simp_all
  have b: "0 \<le> ?b" "?b \<le> 30"
    using term_bounds [of 30, OF _ _ factor_bounds [of 20 f]] by simp_all
  have c: "0 \<le> ?c" "?c \<le> 20"
    using term_bounds [of 20, OF _ _ factor_bounds [of 10 c]] by simp_all
  have ab0: "0 \<le> ?a + ?b" using a b by simp
  have ab1: "?a + ?b \<le> of_int 80" using a b by simp
  have s0: "0 \<le> round_to_double (?a + ?b)" by (rule round_to_double_nonneg [OF ab0])
  have s1: "round_to_double (?a + ?b) \<le> 80"
    using round_to_double_le_int [OF ab0 ab1] by simp
  have t0: "0 \<le> round_to_double (?a + ?b) + ?c" using s0 c by simp
  have t1: "round_to_double (?a + ?b) + ?c \<le> of_int 100" using s1 c by simp
  show "0 \<le> weighted_sum s f c"
    unfolding weighted_sum_def by (rule round_to_double_nonneg [OF t0])
  show "weighted_sum s f c \<le> 100"
    unfolding weighted_sum_def using round_to_double_le_int [OF t0 t1] by simp
qed

lemma weighted_sum_mono:
  assumes "s \<le> s'" "f \<le> f'" "c \<le> c'"
  shows "weighted_sum s f c \<le> weighted_sum s' f' c'"
proof -
  let ?a = "\<lambda>s. round_to_double (50 * round_to_double (of_nat (min 30 s) / 30))"
  let ?b = "\<lambda>f. round_to_double (30 * round_to_double (of_nat (min 20 f) / 20))"
  let ?c = "\<lambda>c. round_to_double (20 * round_to_double (of_nat (min 10 c) / 10))"
  have a: "?a s \<le> ?a s'"
    using term_mono [of 50, OF _ factor_bounds(1) [of 30 s] factor_mono [of 30 s s']] assms(1)
    by simp
  have b: "?b f \<le> ?b f'"
    using term_mono [of 30, OF _ factor_bounds(1) [of 20 f] factor_mono [of 20 f f']] assms(2)
    by simp
  have c: "?c c \<le> ?c c'"
    using term_mono [of 20, OF _ factor_bounds(1) [of 10 c] factor_mono [of 10 c c']] assms(3)
    by simp
  have a0: "0 \<le> ?a s"
    using term_bounds(1) [of 50, OF _ _ factor_bounds [of 30 s]] by simp
  have b0: "0 \<le> ?b f"
    using term_bounds(1) [of 30, OF _ _ factor_bounds [of 20 f]] by simp
  have c0: "0 \<le> ?c c"
    using term_bounds(1) [of 20, OF _ _ factor_bounds [of 10 c]] by simp
  have ab: "round_to_double (?a s + ?b f) \<le> round_to_double (?a s' + ?b f')"
    using a b a0 b0 by (intro round_to_double_mono) simp_all
  have ab0: "0 \<le> round_to_double (?a s + ?b f)"
    using a0 b0 by (intro round_to_double_nonneg) simp
  show ?thesis
    unfolding weighted_sum_def using ab c ab0 c0 by (intro round_to_double_mono) simp_all
qed

lemma score_weighted_sum:
  "calculateImpactScore pr =
     js_round (round_to_double
       (weighted_sum (additions pr + deletions pr) (changed_files pr) (commits pr)
          * (if draft pr then round_to_double (9 / 10) else 1)))"
  by (simp add: calculateImpactScore_def weighted_sum_def Let_def)

text \<open>
  C4. The impact score of every pull request is an integer between 0 and 100, and at most
  90 when the pull request is a draft.
\<close>

theorem impact_score_bounds:
  "0 \<le> calculateImpactScore pr \<and> calculateImpactScore pr \<le> 100
   \<and> (draft pr \<longrightarrow> calculateImpactScore pr \<le> 90)"
proof -
  let ?r = "weighted_sum (additions pr + deletions pr) (changed_files pr) (commits pr)"
  let ?p = "if draft pr then round_to_double (9 / 10) else (1 :: rat)"
  have r0: "0 \<le> ?r" and r1: "?r \<le> 100" by (rule weighted_sum_bounds)+
  have p0: "0 \<le> ?p" and p1: "?p \<le> 1" by (simp_all add: double_nine_tenths)
  have m0: "0 \<le> ?r * ?p" using r0 p0 by simp
  have "?r * ?p \<le> 100 * 1" using r0 r1 p0 p1 by (intro mult_mono) simp_all
  then have m1: "?r * ?p \<le> of_int 100" by simp
  have "0 \<le> round_to_double (?r * ?p)" by (rule round_to_double_nonneg [OF m0])
  then have lo: "0 \<le> calculateImpactScore pr"
    unfolding score_weighted_sum by (intro js_round_ge) simp
  have "round_to_double (?r * ?p) \<le> of_int 100"
    by (rule round_to_double_le_int [OF m0 m1]) simp
  then have hi: "calculateImpactScore pr \<le> 100"
    unfolding score_weighted_sum by (intro js_round_le)
  have dr: "calculateImpactScore pr \<le> 90" if "draft pr"
  proof -
    have "?r * ?p \<le> 100 * (8106479329266893 / 9007199254740992)"
      using r0 r1 that by (simp add: double_nine_tenths)
    also have "\<dots> \<le> of_int 361 * 2 powi (- 2)" by (simp add: power_int_minus)
    finally have le: "?r * ?p \<le> of_int 361 * 2 powi (- 2)" .
    have "round_to_double (?r * ?p) \<le> round_to_double (of_int 361 * 2 powi (- 2))"
      using m0 le by (rule round_to_double_mono)
    also have "\<dots> = of_int 361 * 2 powi (- 2)"
      by (rule round_to_double_exact_pos) simp_all
    finally have "round_to_double (?r * ?p) + 1 / 2 < of_int 91"
      by (simp add: power_int_minus)
    then have "\<lfloor>round_to_double (?r * ?p) + 1 / 2\<rfloor> < 91" by (simp only: floor_less_iff)
    then show ?thesis unfolding score_weighted_sum js_round_def by simp
  qed
  show ?thesis using lo hi dr by blast
qed

theorem impact_score_bounds_witness:
  "draft (sample_pr\<lparr>additions := 40, changed_files := 25, commits := 12, draft := True\<rparr>)
   \<and> calculateImpactScore
        (sample_pr\<lparr>additions := 40, changed_files := 25, commits := 12, draft := True\<rparr>) \<le> 90"
  using impact_score_bounds
    [of "sample_pr\<lparr>additions := 40, changed_files := 25, commits := 12, draft := True\<rparr>"]
  by simp

text \<open>
  C5. With the draft flag equal, the impact score does not decrease when additions plus
  deletions, the changed-file count and the commit count do not decrease (so it is
  non-decreasing in each of them with the others fixed); and it depends on them only
  through their values capped at 30, 20 and 10, so it is constant beyond the saturation
  points.
\<close>

theorem impact_score_monotone:
  "(draft p = draft q
      \<and> additions p + deletions p \<le> additions q + deletions q
      \<and> changed_files p \<le> changed_files q
      \<and> commits p \<le> commits q
      \<longrightarrow> calculateImpactScore p \<le> calculateImpactScore q)
   \<and> (draft p = draft q
      \<and> min 30 (additions p + deletions p) = min 30 (additions q + deletions q)
      \<and> min 20 (changed_files p) = min 20 (changed_files q)
      \<and> min 10 (commits p) = min 10 (commits q)
      \<longrightarrow> calculateImpactScore p = calculateImpactScore q)"
proof -
  have m: "calculateImpactScore p \<le> calculateImpactScore q"
    if "draft p = draft q" "additions p + deletions p \<le> additions q + deletions q"
       "changed_files p \<le> changed_files q" "commits p \<le> commits q"
  proof -
    let ?c = "if draft q then round_to_double (9 / 10) else (1 :: rat)"
    have c0: "0 \<le> ?c" by (simp add: double_nine_tenths)
    have w: "weighted_sum (additions p + deletions p) (changed_files p) (commits p)
            \<le> weighted_sum (additions q + deletions q) (changed_files q) (commits q)"
      using that by (intro weighted_sum_mono)
    have "weighted_sum (additions p + deletions p) (changed_files p) (commits p) * ?c
            \<le> weighted_sum (additions q + deletions q) (changed_files q) (commits q) * ?c"
      using w c0 by (rule mult_right_mono)
    moreover have "0 \<le> weighted_sum (additions p + deletions p) (changed_files p) (commits p) * ?c"
      using weighted_sum_bounds(1) c0 by simp
    ultimately show ?thesis
      unfolding score_weighted_sum that(1)
      by (intro js_round_mono round_to_double_mono)
  qed
  have e: "calculateImpactScore p = calculateImpactScore q"
    if "draft p = draft q"
       "min 30 (additions p + deletions p) = min 30 (additions q + deletions q)"
       "min 20 (changed_files p) = min 20 (changed_files q)"
       "min 10 (commits p) = min 10 (commits q)"
    using that by (simp add: score_weighted_sum weighted_sum_def)
  show ?thesis using m e by blast
qed

theorem impact_score_monotone_witness:
  "additions sample_pr + deletions sample_pr
     \<le> additions (sample_pr\<lparr>additions := 14\<rparr>) + deletions (sample_pr\<lparr>additions := 14\<rparr>)
   \<and> calculateImpactScore sample_pr \<le> calculateImpactScore (sample_pr\<lparr>additions := 14\<rparr>)
   \<and> min 30 (additions (sample_pr\<lparr>additions := 24\<rparr>) + deletions (sample_pr\<lparr>additions := 24\<rparr>))
       = min 30 (additions (sample_pr\<lparr>additions := 54\<rparr>) + deletions (sample_pr\<lparr>additions := 54\<rparr>))
   \<and> calculateImpactScore (sample_pr\<lparr>additions := 24\<rparr>)
       = calculateImpactScore (sample_pr\<lparr>additions := 54\<rparr>)"
  using impact_score_monotone [of sample_pr "sample_pr\<lparr>additions := 14\<rparr>"]
    impact_score_monotone [of "sample_pr\<lparr>additions := 24\<rparr>" "sample_pr\<lparr>additions := 54\<rparr>"]
  by (simp add: sample_pr_def)

text \<open>
  The rounding of the doubles shows in the score: a draft that changes five lines in no
  file with no commit scores 7, where the exact value before \<open>Math.round\<close> would be 7.5.
\<close>

lemma score_of_a_small_draft:
  "calculateImpactScore
     (sample_pr\<lparr>additions := 5, deletions := 0, changed_files := 0, commits := 0,
                draft := True\<rparr>) = 7"
  by code_simp

section \<open>Properties of the Repository Aggregator\<close>

lemma withinRange_iff:
  "withinRange (merged_at p) rng \<longleftrightarrow>
     (\<exists>t s u. merged_at p = Some t \<and> since rng = Time s \<and> until rng = Time u
        \<and> s \<le> t \<and> t \<le> u)"
  by (cases "merged_at p"; cases "since rng"; cases "until rng") auto

lemma step_repoMetric:
  "st_repoMetric (aggregate_step n ow rng st p) =
     (if withinRange (merged_at p) rng then
        (st_repoMetric st)
          \<lparr>mergedPRs := mergedPRs (st_repoMetric st) + 1,
           linesAdded := linesAdded (st_repoMetric st) + additions p,
           linesDeleted := linesDeleted (st_repoMetric st) + deletions p,
           repo_commits := repo_commits (st_repoMetric st) + commits p\<rparr>
      else (st_repoMetric st)\<lparr>openPRs := openPRs (st_repoMetric st) + 1\<rparr>)"
  by (simp add: aggregate_step_def Let_def)

lemma run_repoMetric:
  "mergedPRs (st_repoMetric (foldl (aggregate_step n ow rng) st prs))
     = mergedPRs (st_repoMetric st) + length (filter (\<lambda>p. withinRange (merged_at p) rng) prs)
   \<and> linesAdded (st_repoMetric (foldl (aggregate_step n ow rng) st prs))
     = linesAdded (st_repoMetric st)
       + sum_list (map additions (filter (\<lambda>p. withinRange (merged_at p) rng) prs))
   \<and> linesDeleted (st_repoMetric (foldl (aggregate_step n ow rng) st prs))
     = linesDeleted (st_repoMetric st)
       + sum_list (map deletions (filter (\<lambda>p. withinRange (merged_at p) rng) prs))
   \<and> repo_commits (st_repoMetric (foldl (aggregate_step n ow rng) st prs))
     = repo_commits (st_repoMetric st)
       + sum_list (map commits (filter (\<lambda>p. withinRange (merged_at p) rng) prs))
   \<and> openPRs (st_repoMetric (foldl (aggregate_step n ow rng) st prs))
     = openPRs (st_repoMetric st)
       + length (filter (\<lambda>p. \<not> withinRange (merged_at p) rng) prs)"
proof (induction prs arbitrary: st)
  case Nil
  show ?case by simp
next
  case (Cons p ps)
  show ?case
    by (simp add: Cons.IH step_repoMetric)
qed

text \<open>The entry the loop body stores for the author of the pull request.\<close>

lemma step_accumulator_other:
  "author_of p \<noteq> a \<Longrightarrow>
   map_of (engineerAccumulator (aggregate_step n ow rng st p)) a
     = map_of (engineerAccumulator st) a"
  by (simp add: aggregate_step_def Let_def update_conv')

lemma step_accumulator_same:
  "map_of (engineerAccumulator (aggregate_step n ow rng st p)) (author_of p) =
     Some (let e0 = (case map_of (engineerAccumulator st) (author_of p) of
                       Some e \<Rightarrow> e | None \<Rightarrow> new_engineer (author_of p) p);
               e1 = (if n \<in> set (eng_repos e0) then e0 else e0\<lparr>eng_repos := eng_repos e0 @ [n]\<rparr>)
           in if withinRange (merged_at p) rng then
                e1\<lparr>eng_mergedPRs := eng_mergedPRs e1 + 1,
                   eng_linesAdded := eng_linesAdded e1 + additions p,
                   eng_linesDeleted := eng_linesDeleted e1 + deletions p,
                   eng_commits := eng_commits e1 + commits p,
                   impactScore := impactScore e1 + calculateImpactScore p,
                   lastActive := (if updated_at p > lastActive e1 then updated_at p
                                  else lastActive e1)\<rparr>
              else e1)"
  by (simp add: aggregate_step_def Let_def update_conv')

lemma step_keys:
  "map fst (engineerAccumulator (aggregate_step n ow rng st p))
     = (if author_of p \<in> set (map fst (engineerAccumulator st))
        then map fst (engineerAccumulator st)
        else map fst (engineerAccumulator st) @ [author_of p])"
  by (simp add: aggregate_step_def Let_def update_keys)


lemma step_field_merged:
  "entry_field eng_mergedPRs (aggregate_step n ow rng st p) a
     = entry_field eng_mergedPRs st a
       + (if author_of p = a \<and> withinRange (merged_at p) rng then 1 else 0)"
proof (cases "author_of p = a")
  case True
  show ?thesis
    unfolding entry_field_def True[symmetric] step_accumulator_same
    by (simp add: Let_def new_engineer_def split: option.split)
next
  case False
  then show ?thesis
    by (simp add: entry_field_def step_accumulator_other)
qed

lemma run_field_merged:
  "entry_field eng_mergedPRs (foldl (aggregate_step n ow rng) st prs) a
     = entry_field eng_mergedPRs st a
       + length (filter (\<lambda>p. author_of p = a \<and> withinRange (merged_at p) rng) prs)"
  by (induction prs arbitrary: st) (simp_all add: step_field_merged)

lemma step_field_added:
  "entry_field eng_linesAdded (aggregate_step n ow rng st p) a
     = entry_field eng_linesAdded st a
       + (if author_of p = a \<and> withinRange (merged_at p) rng then additions p else 0)"
proof (cases "author_of p = a")
  case True
  show ?thesis
    unfolding entry_field_def True[symmetric] step_accumulator_same
    by (simp add: Let_def new_engineer_def split: option.split)
next
  case False
  then show ?thesis
    by (simp add: entry_field_def step_accumulator_other)
qed

lemma run_field_added:
  "entry_field eng_linesAdded (foldl (aggregate_step n ow rng) st prs) a
     = entry_field eng_linesAdded st a
       + sum_list (map additions (filter (\<lambda>p. author_of p = a \<and> withinRange (merged_at p) rng) prs))"
  by (induction prs arbitrary: st) (simp_all add: step_field_added)

lemma step_field_deleted:
  "entry_field eng_linesDeleted (aggregate_step n ow rng st p) a
     = entry_field eng_linesDeleted st a
       + (if author_of p = a \<and> withinRange (merged_at p) rng then deletions p else 0)"
proof (cases "author_of p = a")
  case True
  show ?thesis
    unfolding entry_field_def True[symmetric] step_accumulator_same
    by (simp add: Let_def new_engineer_def split: option.split)
next
  case False
  then show ?thesis
    by (simp add: entry_field_def step_accumulator_other)
qed

lemma run_field_deleted:
  "entry_field eng_linesDeleted (foldl (aggregate_step n ow rng) st prs) a
     = entry_field eng_linesDeleted st a
       + sum_list (map deletions (filter (\<lambda>p. author_of p = a \<and> withinRange (merged_at p) rng) prs))"
  by (induction prs arbitrary: st) (simp_all add: step_field_deleted)

lemma step_field_commits:
  "entry_field eng_commits (aggregate_step n ow rng st p) a
     = entry_field eng_commits st a
       + (if author_of p = a \<and> withinRange (merged_at p) rng then commits p else 0)"
proof (cases "author_of p = a")
  case True
  show ?thesis
    unfolding entry_field_def True[symmetric] step_accumulator_same
    by (simp add: Let_def new_engineer_def split: option.split)
next
  case False
  then show ?thesis
    by (simp add: entry_field_def step_accumulator_other)
qed

lemma run_field_commits:
  "entry_field eng_commits (foldl (aggregate_step n ow rng) st prs) a
     = entry_field eng_commits st a
       + sum_list (map commits (filter (\<lambda>p. author_of p = a \<and> withinRange (merged_at p) rng) prs))"
  by (induction prs arbitrary: st) (simp_all add: step_field_commits)

lemma step_field_impact:
  "entry_field impactScore (aggregate_step n ow rng st p) a
     = entry_field impactScore st a
       + (if author_of p = a \<and> withinRange (merged_at p) rng then calculateImpactScore p else 0)"
proof (cases "author_of p = a")
  case True
  show ?thesis
    unfolding entry_field_def True[symmetric] step_accumulator_same
    by (simp add: Let_def new_engineer_def split: option.split)
next
  case False
  then show ?thesis
    by (simp add: entry_field_def step_accumulator_other)
qed

lemma run_field_impact:
  "entry_field impactScore (foldl (aggregate_step n ow rng) st prs) a
     = entry_field impactScore st a
       + sum_list (map calculateImpactScore (filter (\<lambda>p. author_of p = a \<and> withinRange (merged_at p) rng) prs))"
  by (induction prs arbitrary: st) (simp_all add: step_field_impact)

lemma step_distinct:
  "distinct (map fst (engineerAccumulator st)) \<Longrightarrow>
   distinct (map fst (engineerAccumulator (aggregate_step n ow rng st p)))"
  by (simp add: aggregate_step_def Let_def distinct_update)

lemma step_engineer_name:
  assumes "\<forall>k e. map_of (engineerAccumulator st) k = Some e \<longrightarrow> engineer e = k"
    and "map_of (engineerAccumulator (aggregate_step n ow rng st p)) k = Some e"
  shows "engineer e = k"
proof (cases "author_of p = k")
  case True
  then show ?thesis
    using assms step_accumulator_same [of n ow rng st p]
    by (auto simp: Let_def new_engineer_def split: option.splits if_splits)
next
  case False
  then show ?thesis
    using assms by (simp add: step_accumulator_other)
qed

lemma step_acc_ok: "acc_ok st \<Longrightarrow> acc_ok (aggregate_step n ow rng st p)"
  unfolding acc_ok_def using step_distinct step_engineer_name by blast

lemma run_acc_ok: "acc_ok st \<Longrightarrow> acc_ok (foldl (aggregate_step n ow rng) st prs)"
  by (induction prs arbitrary: st) (simp_all add: step_acc_ok)

lemma initial_acc_ok: "acc_ok (initial_state n ow)"
  by (simp add: acc_ok_def initial_state_def)

lemma step_key_set:
  "fst ` set (engineerAccumulator (aggregate_step n ow rng st p))
     = insert (author_of p) (fst ` set (engineerAccumulator st))"
  by (simp add: aggregate_step_def Let_def dom_update)

lemma run_keys:
  "fst ` set (engineerAccumulator (foldl (aggregate_step n ow rng) st prs))
     = fst ` set (engineerAccumulator st) \<union> author_of ` set prs"
  by (induction prs arbitrary: st) (simp_all add: step_key_set)

lemma run_size:
  assumes "acc_ok st"
  shows "length (engineerAccumulator (foldl (aggregate_step n ow rng) st prs))
           = card (fst ` set (engineerAccumulator st) \<union> author_of ` set prs)"
proof -
  let ?acc = "engineerAccumulator (foldl (aggregate_step n ow rng) st prs)"
  have "distinct (map fst ?acc)"
    using run_acc_ok [OF assms] by (simp add: acc_ok_def)
  then have "length ?acc = card (set (map fst ?acc))"
    by (metis distinct_card length_map)
  then show ?thesis by (simp add: run_keys)
qed

lemma step_last_other:
  "author_of p \<noteq> a \<Longrightarrow> last_of (aggregate_step n ow rng st p) a = last_of st a"
  by (simp add: last_of_def step_accumulator_other)

lemma step_last_same:
  "last_of (aggregate_step n ow rng st p) (author_of p) =
     Some (let l = (case last_of st (author_of p) of Some l \<Rightarrow> l | None \<Rightarrow> updated_at p)
           in if withinRange (merged_at p) rng then max l (updated_at p) else l)"
  unfolding last_of_def step_accumulator_same
  by (simp add: Let_def new_engineer_def max_def split: option.split)

lemma run_last_existing:
  "last_of st a = Some l \<Longrightarrow>
   last_of (foldl (aggregate_step n ow rng) st prs) a
     = Some (fold max (map updated_at
               (filter (\<lambda>p. author_of p = a \<and> withinRange (merged_at p) rng) prs)) l)"
proof (induction prs arbitrary: st l)
  case Nil
  then show ?case by simp
next
  case (Cons p ps)
  show ?case
  proof (cases "author_of p = a")
    case True
    have "last_of (aggregate_step n ow rng st p) a
            = Some (if withinRange (merged_at p) rng then max l (updated_at p) else l)"
      using step_last_same [of n ow rng st p] Cons.prems True by (simp add: Let_def)
    from Cons.IH [OF this] show ?thesis
      using True by (simp add: max.commute)
  next
    case False
    then have "last_of (aggregate_step n ow rng st p) a = Some l"
      using Cons.prems by (simp add: step_last_other)
    from Cons.IH [OF this] show ?thesis
      using False by simp
  qed
qed

lemma run_last_fresh:
  "last_of st a = None \<Longrightarrow>
   last_of (foldl (aggregate_step n ow rng) st prs) a
     = (case filter (\<lambda>p. author_of p = a) prs of
          [] \<Rightarrow> None
        | p0 # _ \<Rightarrow>
            Some (fold max (map updated_at
                    (filter (\<lambda>p. author_of p = a \<and> withinRange (merged_at p) rng) prs))
                    (updated_at p0)))"
proof (induction prs arbitrary: st)
  case Nil
  then show ?case by simp
next
  case (Cons p ps)
  show ?case
  proof (cases "author_of p = a")
    case True
    have "last_of (aggregate_step n ow rng st p) a = Some (updated_at p)"
      using step_last_same [of n ow rng st p] Cons.prems True by (simp add: Let_def)
    from run_last_existing [OF this] show ?thesis
      using True by simp
  next
    case False
    then have "last_of (aggregate_step n ow rng st p) a = None"
      using Cons.prems by (simp add: step_last_other)
    from Cons.IH [OF this] show ?thesis
      using False by (simp split: list.split)
  qed
qed


lemma finish_repoMetric_fields:
  "mergedPRs (finish_repoMetric prs rng k rm) = mergedPRs rm"
  "openPRs (finish_repoMetric prs rng k rm) = openPRs rm"
  "linesAdded (finish_repoMetric prs rng k rm) = linesAdded rm"
  "linesDeleted (finish_repoMetric prs rng k rm) = linesDeleted rm"
  "repo_commits (finish_repoMetric prs rng k rm) = repo_commits rm"
  "activeContributors (finish_repoMetric prs rng k rm) = k"
  by (simp_all add: finish_repoMetric_def Let_def)

lemma finish_engineer_fields:
  "engineer (finish_engineer prs rng e) = engineer e"
  "eng_mergedPRs (finish_engineer prs rng e) = eng_mergedPRs e"
  "eng_linesAdded (finish_engineer prs rng e) = eng_linesAdded e"
  "eng_linesDeleted (finish_engineer prs rng e) = eng_linesDeleted e"
  "eng_commits (finish_engineer prs rng e) = eng_commits e"
  "impactScore (finish_engineer prs rng e) = impactScore e"
  "lastActive (finish_engineer prs rng e) = lastActive e"
  by (simp_all add: finish_engineer_def)

lemma initial_fields:
  "mergedPRs (st_repoMetric (initial_state n ow)) = 0"
  "openPRs (st_repoMetric (initial_state n ow)) = 0"
  "linesAdded (st_repoMetric (initial_state n ow)) = 0"
  "linesDeleted (st_repoMetric (initial_state n ow)) = 0"
  "repo_commits (st_repoMetric (initial_state n ow)) = 0"
  "engineerAccumulator (initial_state n ow) = []"
  by (simp_all add: initial_state_def initial_repoMetric_def)

lemma aggregate_repo_totals:
  "mergedPRs (repoMetric (aggregateMetrics n ow prs rng))
     = length (filter (\<lambda>p. withinRange (merged_at p) rng) prs)"
  "linesAdded (repoMetric (aggregateMetrics n ow prs rng))
     = sum_list (map additions (filter (\<lambda>p. withinRange (merged_at p) rng) prs))"
  "linesDeleted (repoMetric (aggregateMetrics n ow prs rng))
     = sum_list (map deletions (filter (\<lambda>p. withinRange (merged_at p) rng) prs))"
  "repo_commits (repoMetric (aggregateMetrics n ow prs rng))
     = sum_list (map commits (filter (\<lambda>p. withinRange (merged_at p) rng) prs))"
  "openPRs (repoMetric (aggregateMetrics n ow prs rng))
     = length (filter (\<lambda>p. \<not> withinRange (merged_at p) rng) prs)"
  by (simp_all add: aggregateMetrics_def Let_def finish_repoMetric_fields run_repoMetric
        initial_fields)

text \<open>Every engineer record returned is a stored record, finished, under its own name.\<close>

lemma engineerMetrics_stored:
  assumes "e \<in> set (engineerMetrics (aggregateMetrics n ow prs rng))"
  shows "\<exists>e0. map_of (engineerAccumulator
                  (foldl (aggregate_step n ow rng) (initial_state n ow) prs)) (engineer e)
                = Some e0
              \<and> e = finish_engineer prs rng e0"
proof -
  let ?st = "foldl (aggregate_step n ow rng) (initial_state n ow) prs"
  have ok: "acc_ok ?st" by (rule run_acc_ok [OF initial_acc_ok])
  from assms obtain k e0 where m: "(k, e0) \<in> set (engineerAccumulator ?st)"
    and e: "e = finish_engineer prs rng e0"
    by (auto simp: aggregateMetrics_def Let_def)
  from ok m have l: "map_of (engineerAccumulator ?st) k = Some e0"
    by (simp add: acc_ok_def)
  with ok have "engineer e0 = k" by (simp add: acc_ok_def)
  with l e show ?thesis by (auto simp: finish_engineer_fields)
qed

lemma engineerMetrics_names:
  "engineer ` set (engineerMetrics (aggregateMetrics n ow prs rng)) = author_of ` set prs"
proof -
  let ?st = "foldl (aggregate_step n ow rng) (initial_state n ow) prs"
  have ok: "acc_ok ?st" by (rule run_acc_ok [OF initial_acc_ok])
  have "\<forall>x \<in> set (engineerAccumulator ?st). engineer (snd x) = fst x"
  proof
    fix x assume x: "x \<in> set (engineerAccumulator ?st)"
    then have "map_of (engineerAccumulator ?st) (fst x) = Some (snd x)"
      using ok by (simp add: acc_ok_def)
    then show "engineer (snd x) = fst x" using ok by (simp add: acc_ok_def)
  qed
  then have "map (\<lambda>x. engineer (snd x)) (engineerAccumulator ?st)
               = map fst (engineerAccumulator ?st)"
    by simp
  then have "map engineer (engineerMetrics (aggregateMetrics n ow prs rng))
               = map fst (engineerAccumulator ?st)"
    by (simp add: aggregateMetrics_def Let_def finish_engineer_fields comp_def)
  then have "engineer ` set (engineerMetrics (aggregateMetrics n ow prs rng))
               = fst ` set (engineerAccumulator ?st)"
    by (metis set_map)
  then show ?thesis by (simp add: run_keys initial_fields)
qed

lemma aggregate_engineer_totals:
  assumes "e \<in> set (engineerMetrics (aggregateMetrics n ow prs rng))"
  shows "eng_mergedPRs e
           = length (filter (\<lambda>p. author_of p = engineer e \<and> withinRange (merged_at p) rng) prs)"
    and "eng_linesAdded e
           = sum_list (map additions
               (filter (\<lambda>p. author_of p = engineer e \<and> withinRange (merged_at p) rng) prs))"
    and "eng_linesDeleted e
           = sum_list (map deletions
               (filter (\<lambda>p. author_of p = engineer e \<and> withinRange (merged_at p) rng) prs))"
    and "eng_commits e
           = sum_list (map commits
               (filter (\<lambda>p. author_of p = engineer e \<and> withinRange (merged_at p) rng) prs))"
    and "impactScore e
           = sum_list (map calculateImpactScore
               (filter (\<lambda>p. author_of p = engineer e \<and> withinRange (merged_at p) rng) prs))"
proof -
  let ?st = "foldl (aggregate_step n ow rng) (initial_state n ow) prs"
  from engineerMetrics_stored [OF assms] obtain e0
    where l: "map_of (engineerAccumulator ?st) (engineer e) = Some e0"
      and e: "e = finish_engineer prs rng e0"
    by blast
  have f: "entry_field g ?st (engineer e0) = g e0" for g :: "EngineerMetric \<Rightarrow> 'b::zero"
    using l e by (simp add: entry_field_def finish_engineer_fields)
  have z: "entry_field g (initial_state n ow) a = 0" for g :: "EngineerMetric \<Rightarrow> 'b::zero" and a
    by (simp add: entry_field_def initial_fields)
  show "eng_mergedPRs e
           = length (filter (\<lambda>p. author_of p = engineer e \<and> withinRange (merged_at p) rng) prs)"
    using run_field_merged [of n ow rng "initial_state n ow" prs "engineer e"]
    by (simp add: f z e finish_engineer_fields)
  show "eng_linesAdded e
           = sum_list (map additions
               (filter (\<lambda>p. author_of p = engineer e \<and> withinRange (merged_at p) rng) prs))"
    using run_field_added [of n ow rng "initial_state n ow" prs "engineer e"]
    by (simp add: f z e finish_engineer_fields)
  show "eng_linesDeleted e
           = sum_list (map deletions
               (filter (\<lambda>p. author_of p = engineer e \<and> withinRange (merged_at p) rng) prs))"
    using run_field_deleted [of n ow rng "initial_state n ow" prs "engineer e"]
    by (simp add: f z e finish_engineer_fields)
  show "eng_commits e
           = sum_list (map commits
               (filter (\<lambda>p. author_of p = engineer e \<and> withinRange (merged_at p) rng) prs))"
    using run_field_commits [of n ow rng "initial_state n ow" prs "engineer e"]
    by (simp add: f z e finish_engineer_fields)
  show "impactScore e
           = sum_list (map calculateImpactScore
               (filter (\<lambda>p. author_of p = engineer e \<and> withinRange (merged_at p) rng) prs))"
    using run_field_impact [of n ow rng "initial_state n ow" prs "engineer e"]
    by (simp add: f z e finish_engineer_fields)
qed

text \<open>
  C3. The repository totals mergedPRs, linesAdded, linesDeleted and commits are the count
  and the sums over exactly the collected pull requests whose merge timestamp is present
  and lies within since and until inclusive (both being time values; nothing lies within
  a range with an invalid bound); openPRs counts exactly the others. Every
  author has an engineer record, and each record's mergedPRs, linesAdded, linesDeleted and
  commits are the count and sums over that author's pull requests merged in the window.
\<close>

theorem merged_in_window_iff_counted:
  fixes n ow :: string and prs :: "GitHubPullRequest list" and rng :: RangeDescriptor
  defines "W \<equiv> (\<lambda>p. \<exists>t s u. merged_at p = Some t \<and> since rng = Time s \<and> until rng = Time u
                        \<and> s \<le> t \<and> t \<le> u)"
  defines "r \<equiv> aggregateMetrics n ow prs rng"
  shows "mergedPRs (repoMetric r) = length (filter W prs)
     \<and> linesAdded (repoMetric r) = sum_list (map additions (filter W prs))
     \<and> linesDeleted (repoMetric r) = sum_list (map deletions (filter W prs))
     \<and> repo_commits (repoMetric r) = sum_list (map commits (filter W prs))
     \<and> openPRs (repoMetric r) = length (filter (\<lambda>p. \<not> W p) prs)
     \<and> engineer ` set (engineerMetrics r) = author_of ` set prs
     \<and> (\<forall>e \<in> set (engineerMetrics r).
          eng_mergedPRs e = length (filter (\<lambda>p. author_of p = engineer e \<and> W p) prs)
        \<and> eng_linesAdded e
            = sum_list (map additions (filter (\<lambda>p. author_of p = engineer e \<and> W p) prs))
        \<and> eng_linesDeleted e
            = sum_list (map deletions (filter (\<lambda>p. author_of p = engineer e \<and> W p) prs))
        \<and> eng_commits e
            = sum_list (map commits (filter (\<lambda>p. author_of p = engineer e \<and> W p) prs)))"
proof -
  have W: "W = (\<lambda>p. withinRange (merged_at p) rng)"
    unfolding W_def by (simp add: withinRange_iff)
  have repo: "mergedPRs (repoMetric r) = length (filter W prs)
     \<and> linesAdded (repoMetric r) = sum_list (map additions (filter W prs))
     \<and> linesDeleted (repoMetric r) = sum_list (map deletions (filter W prs))
     \<and> repo_commits (repoMetric r) = sum_list (map commits (filter W prs))
     \<and> openPRs (repoMetric r) = length (filter (\<lambda>p. \<not> W p) prs)"
    unfolding W r_def by (simp add: aggregate_repo_totals)
  have names: "engineer ` set (engineerMetrics r) = author_of ` set prs"
    unfolding r_def by (rule engineerMetrics_names)
  have eng: "eng_mergedPRs e = length (filter (\<lambda>p. author_of p = engineer e \<and> W p) prs)
        \<and> eng_linesAdded e
            = sum_list (map additions (filter (\<lambda>p. author_of p = engineer e \<and> W p) prs))
        \<and> eng_linesDeleted e
            = sum_list (map deletions (filter (\<lambda>p. author_of p = engineer e \<and> W p) prs))
        \<and> eng_commits e
            = sum_list (map commits (filter (\<lambda>p. author_of p = engineer e \<and> W p) prs))"
    if "e \<in> set (engineerMetrics r)" for e
    using that aggregate_engineer_totals [of e n ow prs rng] unfolding W r_def by simp
  show ?thesis using repo names eng by blast
qed



lemma three_prs_authors: "map author_of three_prs = [''alice'', ''bob'', ''alice'']"
  by (simp add: three_prs_def sample_pr_def author_of_def bob_def)

theorem merged_in_window_iff_counted_witness:
  "mergedPRs (repoMetric (aggregateMetrics ''web'' ''acme'' three_prs sample_range)) = 1
   \<and> openPRs (repoMetric (aggregateMetrics ''web'' ''acme'' three_prs sample_range)) = 2
   \<and> (\<exists>e \<in> set (engineerMetrics (aggregateMetrics ''web'' ''acme'' three_prs sample_range)).
         engineer e = ''alice'' \<and> eng_mergedPRs e = 1 \<and> eng_linesAdded e = 4)"
proof -
  note T = merged_in_window_iff_counted [of "''web''" "''acme''" three_prs sample_range]
  let ?r = "aggregateMetrics ''web'' ''acme'' three_prs sample_range"
  have m: "mergedPRs (repoMetric ?r) = 1"
    using T [THEN conjunct1]
    by (simp add: three_prs_def sample_range_def sample_pr_def)
  have o: "openPRs (repoMetric ?r) = 2"
    using T [THEN conjunct2, THEN conjunct2, THEN conjunct2, THEN conjunct2, THEN conjunct1]
    by (simp add: three_prs_def sample_range_def sample_pr_def)
  have "engineer ` set (engineerMetrics ?r) = author_of ` set three_prs"
    using T [THEN conjunct2, THEN conjunct2, THEN conjunct2, THEN conjunct2, THEN conjunct2,
             THEN conjunct1] .
  also have "\<dots> = set (map author_of three_prs)" by simp
  finally have "''alice'' \<in> engineer ` set (engineerMetrics ?r)"
    by (simp only: three_prs_authors) simp
  then obtain e where e: "e \<in> set (engineerMetrics ?r)" and a: "engineer e = ''alice''"
    by auto
  have "eng_mergedPRs e = 1 \<and> eng_linesAdded e = 4"
    using T [THEN conjunct2, THEN conjunct2, THEN conjunct2, THEN conjunct2, THEN conjunct2,
             THEN conjunct2, THEN bspec, OF e] a
    by (simp add: three_prs_def sample_range_def sample_pr_def author_of_def bob_def)
  with e a m o show ?thesis by blast
qed


lemma aggregate_size:
  "length (engineerMetrics (aggregateMetrics n ow prs rng)) = card (author_of ` set prs)"
  "activeContributors (repoMetric (aggregateMetrics n ow prs rng)) = card (author_of ` set prs)"
  using run_size [OF initial_acc_ok, where prs = prs and rng = rng]
  by (simp_all add: aggregateMetrics_def Let_def finish_repoMetric_fields initial_fields)

lemma aggregate_last_active:
  assumes "e \<in> set (engineerMetrics (aggregateMetrics n ow prs rng))"
  shows "\<exists>p0 rest. filter (\<lambda>p. author_of p = engineer e) prs = p0 # rest
           \<and> lastActive e
               = fold max (map updated_at
                   (filter (\<lambda>p. author_of p = engineer e \<and> withinRange (merged_at p) rng) prs))
                   (updated_at p0)"
proof -
  let ?st = "foldl (aggregate_step n ow rng) (initial_state n ow) prs"
  from engineerMetrics_stored [OF assms] obtain e0
    where l: "map_of (engineerAccumulator ?st) (engineer e) = Some e0"
      and e: "e = finish_engineer prs rng e0"
    by blast
  have "last_of ?st (engineer e) = Some (lastActive e)"
    using l e by (simp add: last_of_def finish_engineer_fields)
  moreover have "last_of (initial_state n ow) (engineer e) = None"
    by (simp add: last_of_def initial_fields)
  ultimately show ?thesis
    using run_last_fresh [of "initial_state n ow" "engineer e" n ow rng prs]
    by (auto split: list.splits)
qed

lemma fold_max_Max: "fold max xs (l :: int) = Max (insert l (set xs))"
  using Max.set_eq_fold [of l xs] by simp

text \<open>
  C8, as the code has it. For every engineer record, \<open>lastActive\<close> is the maximum of the
  updated timestamp of the engineer's first collected pull request and the updated
  timestamps of the engineer's pull requests merged in the window. When the engineer's
  pull requests are collected in descending order of update, this is the maximum
  updated timestamp over all of them.
\<close>

theorem last_active_first_or_merged:
  fixes n ow :: string and prs :: "GitHubPullRequest list" and rng :: RangeDescriptor
  defines "W \<equiv> (\<lambda>p. \<exists>t s u. merged_at p = Some t \<and> since rng = Time s \<and> until rng = Time u
                        \<and> s \<le> t \<and> t \<le> u)"
  defines "r \<equiv> aggregateMetrics n ow prs rng"
  shows "\<forall>e \<in> set (engineerMetrics r).
           filter (\<lambda>p. author_of p = engineer e) prs \<noteq> []
         \<and> lastActive e
             = Max (insert (updated_at (hd (filter (\<lambda>p. author_of p = engineer e) prs)))
                      (updated_at ` {p \<in> set prs. author_of p = engineer e \<and> W p}))
         \<and> (sorted_wrt (\<ge>) (map updated_at (filter (\<lambda>p. author_of p = engineer e) prs))
              \<longrightarrow> lastActive e = latest_update_of (engineer e) prs)"
proof
  fix e assume e: "e \<in> set (engineerMetrics r)"
  let ?mine = "filter (\<lambda>p. author_of p = engineer e) prs"
  let ?S = "updated_at ` {p \<in> set prs. author_of p = engineer e \<and> W p}"
  have W: "W = (\<lambda>p. withinRange (merged_at p) rng)"
    unfolding W_def by (simp add: withinRange_iff)
  from aggregate_last_active [OF e [unfolded r_def]] obtain p0 rest
    where mine: "?mine = p0 # rest"
      and la: "lastActive e
                 = fold max (map updated_at
                     (filter (\<lambda>p. author_of p = engineer e \<and> withinRange (merged_at p) rng) prs))
                     (updated_at p0)"
    by blast
  have S: "set (map updated_at
             (filter (\<lambda>p. author_of p = engineer e \<and> withinRange (merged_at p) rng) prs)) = ?S"
    unfolding W by auto
  have la': "lastActive e = Max (insert (updated_at (hd ?mine)) ?S)"
    unfolding la fold_max_Max S mine by simp
  have sub: "?S \<subseteq> set (map updated_at ?mine)" by auto
  have sorted: "lastActive e = latest_update_of (engineer e) prs"
    if "sorted_wrt (\<ge>) (map updated_at ?mine)"
  proof -
    from that have top: "\<forall>x \<in> set (map updated_at ?mine). x \<le> updated_at p0"
      unfolding mine by auto
    have "Max (set (map updated_at ?mine)) = updated_at p0"
      by (rule Max_eqI) (use top in \<open>auto simp: mine\<close>)
    moreover have "Max (insert (updated_at p0) ?S) = updated_at p0"
      by (rule Max_eqI) (use top sub in auto)
    ultimately show ?thesis
      using la' by (simp add: latest_update_of_def mine)
  qed
  show "?mine \<noteq> [] \<and> lastActive e = Max (insert (updated_at (hd ?mine)) ?S)
        \<and> (sorted_wrt (\<ge>) (map updated_at ?mine)
              \<longrightarrow> lastActive e = latest_update_of (engineer e) prs)"
    using mine la' sorted by simp
qed


lemma single_author_record:
  assumes "prs \<noteq> []" and "\<forall>p \<in> set prs. author_of p = a"
  shows "\<exists>e. engineerMetrics (aggregateMetrics n ow prs rng) = [e] \<and> engineer e = a"
proof -
  let ?es = "engineerMetrics (aggregateMetrics n ow prs rng)"
  from assms have A: "author_of ` set prs = {a}" by (cases prs) auto
  then have "length ?es = 1" by (simp add: aggregate_size)
  then obtain e where es: "?es = [e]" by (cases ?es) auto
  then have "engineer e \<in> engineer ` set ?es" by simp
  then have "engineer e = a" unfolding engineerMetrics_names A by simp
  with es show ?thesis by simp
qed

lemma two_open_authors: "\<forall>p \<in> set two_open_prs. author_of p = ''alice''"
  by (simp add: two_open_prs_def sample_pr_def author_of_def)

lemma two_desc_authors: "\<forall>p \<in> set two_desc_prs. author_of p = ''alice''"
  by (simp add: two_desc_prs_def sample_pr_def author_of_def)

text \<open>
  C8, as stated, fails: for two unmerged pull requests by alice, updated at 10 and then at
  20, the record keeps 10 as \<open>lastActive\<close>, and the maximum over her pull requests is 20.
\<close>

theorem last_active_not_latest_update:
  "map engineer (engineerMetrics (aggregateMetrics ''web'' ''acme'' two_open_prs sample_range))
     = [''alice'']
   \<and> map lastActive (engineerMetrics (aggregateMetrics ''web'' ''acme'' two_open_prs sample_range))
     = [10]
   \<and> latest_update_of ''alice'' two_open_prs = 20"
proof -
  let ?es = "engineerMetrics (aggregateMetrics ''web'' ''acme'' two_open_prs sample_range)"
  have "two_open_prs \<noteq> []" by (simp add: two_open_prs_def)
  from single_author_record [OF this two_open_authors] obtain e
    where es: "?es = [e]" and a: "engineer e = ''alice''"
    by blast
  have "e \<in> set ?es" using es by simp
  from aggregate_last_active [OF this] have "lastActive e = 10"
    unfolding a by (simp add: two_open_prs_def sample_pr_def author_of_def)
  moreover have "latest_update_of ''alice'' two_open_prs = 20"
    by (simp add: latest_update_of_def two_open_prs_def sample_pr_def author_of_def)
  ultimately show ?thesis using es a by simp
qed

theorem last_active_first_or_merged_witness:
  "\<exists>e \<in> set (engineerMetrics (aggregateMetrics ''web'' ''acme'' two_desc_prs sample_range)).
     sorted_wrt (\<ge>) (map updated_at (filter (\<lambda>p. author_of p = engineer e) two_desc_prs))
     \<and> lastActive e = 20 \<and> latest_update_of (engineer e) two_desc_prs = 20"
proof -
  let ?es = "engineerMetrics (aggregateMetrics ''web'' ''acme'' two_desc_prs sample_range)"
  have "two_desc_prs \<noteq> []" by (simp add: two_desc_prs_def)
  from single_author_record [OF this two_desc_authors] obtain e
    where es: "?es = [e]" and a: "engineer e = ''alice''"
    by blast
  have e: "e \<in> set ?es" using es by simp
  have s: "sorted_wrt (\<ge>) (map updated_at (filter (\<lambda>p. author_of p = engineer e) two_desc_prs))"
    unfolding a by (simp add: two_desc_prs_def sample_pr_def author_of_def)
  have l: "latest_update_of (engineer e) two_desc_prs = 20"
    unfolding a by (simp add: latest_update_of_def two_desc_prs_def sample_pr_def author_of_def)
  have "lastActive e = latest_update_of (engineer e) two_desc_prs"
    using last_active_first_or_merged
            [of "''web''" "''acme''" two_desc_prs sample_range, THEN bspec, OF e] s
    by blast
  with e s l show ?thesis by auto
qed

text \<open>
  C9. When the collected list is not empty and no pull request in it has a user, every
  pull request is attributed to \<open>unknown\<close>, \<open>activeContributors\<close> is 1, and there is
  exactly one engineer record, named \<open>unknown\<close>, which carries all merged-side totals of
  the repository.
\<close>

theorem authorless_fold_into_unknown:
  fixes n ow :: string and prs :: "GitHubPullRequest list" and rng :: RangeDescriptor
  defines "r \<equiv> aggregateMetrics n ow prs rng"
  assumes "prs \<noteq> []" and "\<forall>p \<in> set prs. user p = None"
  shows "(\<forall>p \<in> set prs. author_of p = ''unknown'')
     \<and> activeContributors (repoMetric r) = 1
     \<and> (\<exists>e. engineerMetrics r = [e] \<and> engineer e = ''unknown''
            \<and> eng_mergedPRs e = mergedPRs (repoMetric r)
            \<and> eng_linesAdded e = linesAdded (repoMetric r)
            \<and> eng_linesDeleted e = linesDeleted (repoMetric r)
            \<and> eng_commits e = repo_commits (repoMetric r))"
proof -
  have u: "\<forall>p \<in> set prs. author_of p = ''unknown''"
    using assms(3) by (simp add: author_of_def)
  then have A: "author_of ` set prs = {''unknown''}"
    using assms(2) by (cases prs) auto
  have c: "activeContributors (repoMetric r) = 1"
    unfolding r_def by (simp add: aggregate_size A)
  from single_author_record [OF assms(2) u] obtain e
    where es: "engineerMetrics r = [e]" and a: "engineer e = ''unknown''"
    unfolding r_def by blast
  have e: "e \<in> set (engineerMetrics (aggregateMetrics n ow prs rng))"
    using es unfolding r_def by simp
  have f: "filter (\<lambda>p. author_of p = ''unknown'' \<and> withinRange (merged_at p) rng) prs
             = filter (\<lambda>p. withinRange (merged_at p) rng) prs"
    using u by (intro filter_cong) auto
  have "eng_mergedPRs e = mergedPRs (repoMetric r)"
       "eng_linesAdded e = linesAdded (repoMetric r)"
       "eng_linesDeleted e = linesDeleted (repoMetric r)"
       "eng_commits e = repo_commits (repoMetric r)"
    unfolding r_def aggregate_repo_totals aggregate_engineer_totals [OF e] a f by simp_all
  with u c es a show ?thesis by simp
qed

theorem authorless_fold_into_unknown_witness:
  "authorless_prs \<noteq> [] \<and> map user authorless_prs = [None, None]
   \<and> activeContributors
        (repoMetric (aggregateMetrics ''web'' ''acme'' authorless_prs sample_range)) = 1
   \<and> map engineer (engineerMetrics (aggregateMetrics ''web'' ''acme'' authorless_prs sample_range))
       = [''unknown'']"
proof -
  have h1: "authorless_prs \<noteq> []" by (simp add: authorless_prs_def)
  have h2: "\<forall>p \<in> set authorless_prs. user p = None" by (simp add: authorless_prs_def)
  have h3: "map user authorless_prs = [None, None]" by (simp add: authorless_prs_def)
  show ?thesis
    using authorless_fold_into_unknown [OF h1 h2, of "''web''" "''acme''" sample_range] h1 h3
    by auto
qed

lemma finish_health:
  "deploymentFrequency (finish_repoMetric prs rng k rm0)
     = Math_max (Finite 1)
         (Math_round (js_divide (Finite (of_nat (mergedPRs rm0))) (getRangeDayCount rng)))"
  "healthScore (finish_repoMetric prs rng k rm0)
     = Math_max (Finite 0)
         (Math_min (Finite 100)
            (Math_round
               (js_plus
                  (js_plus
                     (js_times (Finite (of_nat (mergedPRs rm0)))
                        (Finite (round_to_double (3 / 10))))
                     (js_times (deploymentFrequency (finish_repoMetric prs rng k rm0))
                        (Finite 6)))
                  (Math_max (Finite 0)
                     (js_minus (Finite 40)
                        (js_times (Finite (of_nat (openPRs rm0))) (Finite 2)))))))"
  by (simp_all add: finish_repoMetric_def Let_def)

lemma finish_health_invalid:
  assumes "since rng = InvalidDate \<or> until rng = InvalidDate"
  shows "deploymentFrequency (finish_repoMetric prs rng k rm0) = NaN"
    and "healthScore (finish_repoMetric prs rng k rm0) = NaN"
proof -
  show d: "deploymentFrequency (finish_repoMetric prs rng k rm0) = NaN"
    unfolding finish_health getRangeDayCount_invalid [OF assms] by simp
  show "healthScore (finish_repoMetric prs rng k rm0) = NaN"
    unfolding finish_health(2) d by simp
qed

lemma getRangeDayCount_valid:
  assumes "since rng = Time s" and "until rng = Time u"
  shows "\<exists>dc. 1 \<le> dc \<and> getRangeDayCount rng = Finite (of_int dc)"
  unfolding getRangeDayCount_times [OF assms] by (intro exI conjI) (rule max.cobounded1, rule refl)

lemma deployment_frequency_valid:
  assumes "1 \<le> dc"
  shows "\<exists>d. 1 \<le> d
           \<and> Math_max (Finite 1)
               (Math_round (js_divide (Finite (of_nat m)) (Finite (of_int dc))))
             = Finite (of_int d)"
proof -
  let ?r = "js_round (round_to_double (of_nat m / of_int dc))"
  have "Math_max (Finite 1) (Math_round (js_divide (Finite (of_nat m)) (Finite (of_int dc))))
          = Finite (of_int (max 1 ?r))"
    using assms by simp
  then show ?thesis by (intro exI [of _ "max 1 ?r"]) simp
qed

text \<open>
  With a deployment frequency of at least 1 the sum that is rounded and clamped is at
  least 6, whatever the rounding to doubles on the way.
\<close>

lemma health_valid:
  assumes "1 \<le> d"
  shows "\<exists>h. 6 \<le> h \<and> h \<le> 100
           \<and> Math_max (Finite 0)
               (Math_min (Finite 100)
                  (Math_round
                     (js_plus
                        (js_plus
                           (js_times (Finite (of_nat m)) (Finite (round_to_double (3 / 10))))
                           (js_times (Finite (of_int d)) (Finite 6)))
                        (Math_max (Finite 0)
                           (js_minus (Finite 40) (js_times (Finite (of_nat k)) (Finite 2)))))))
             = Finite (of_int h)"
proof -
  let ?a = "round_to_double (of_nat m * round_to_double (3 / 10))"
  let ?b = "round_to_double (of_int d * 6)"
  let ?c = "max 0 (round_to_double (40 + - round_to_double (of_nat k * 2)))"
  let ?s = "round_to_double (round_to_double (?a + ?b) + ?c)"
  have t: "(0::rat) \<le> round_to_double (3 / 10)" by (intro round_to_double_nonneg) simp
  have a: "0 \<le> ?a" using t by (intro round_to_double_nonneg) simp
  have "(of_int 6 :: rat) \<le> of_int d * 6" using assms by simp
  then have b: "6 \<le> ?b" using round_to_double_ge_int [of 6 "of_int d * 6"] by simp
  have "(of_int 6 :: rat) \<le> ?a + ?b" using a b by simp
  then have ab: "6 \<le> round_to_double (?a + ?b)"
    using round_to_double_ge_int [of 6 "?a + ?b"] by simp
  have c: "0 \<le> ?c" by simp
  have "(of_int 6 :: rat) \<le> round_to_double (?a + ?b) + ?c" using ab c by linarith
  then have s: "6 \<le> ?s"
    using round_to_double_ge_int [of 6 "round_to_double (?a + ?b) + ?c"] by simp
  then have r: "6 \<le> js_round ?s" by (intro js_round_ge) simp
  have "Math_max (Finite 0)
               (Math_min (Finite 100)
                  (Math_round
                     (js_plus
                        (js_plus
                           (js_times (Finite (of_nat m)) (Finite (round_to_double (3 / 10))))
                           (js_times (Finite (of_int d)) (Finite 6)))
                        (Math_max (Finite 0)
                           (js_minus (Finite 40) (js_times (Finite (of_nat k)) (Finite 2)))))))
          = Finite (of_int (max 0 (min 100 (js_round ?s))))"
    by (simp add: js_minus_def)
  moreover have "6 \<le> max 0 (min 100 (js_round ?s))" "max 0 (min 100 (js_round ?s)) \<le> 100"
    using r by simp_all
  ultimately show ?thesis by blast
qed

lemma aggregate_health_invalid:
  assumes "since rng = InvalidDate \<or> until rng = InvalidDate"
  shows "deploymentFrequency (repoMetric (aggregateMetrics n ow prs rng)) = NaN"
    and "healthScore (repoMetric (aggregateMetrics n ow prs rng)) = NaN"
  using finish_health_invalid [OF assms] by (simp_all add: aggregateMetrics_def Let_def)

text \<open>
  C10, as the code has it. For a range whose two bounds are time values, the deployment
  frequency of every repository record is an integer that is at least 1 and its health
  score an integer between 6 and 100. For a range with a bound that is an invalid date,
  both are NaN.
\<close>

theorem health_score_range:
  fixes n ow :: string and prs :: "GitHubPullRequest list" and rng :: RangeDescriptor
  defines "rm \<equiv> repoMetric (aggregateMetrics n ow prs rng)"
  shows "(since rng = Time s \<and> until rng = Time u \<longrightarrow>
            (\<exists>h d. healthScore rm = Finite (of_int h) \<and> 6 \<le> h \<and> h \<le> 100
                  \<and> deploymentFrequency rm = Finite (of_int d) \<and> 1 \<le> d))
         \<and> (since rng = InvalidDate \<or> until rng = InvalidDate \<longrightarrow>
              deploymentFrequency rm = NaN \<and> healthScore rm = NaN)"
proof -
  let ?st = "foldl (aggregate_step n ow rng) (initial_state n ow) prs"
  have rm: "rm = finish_repoMetric prs rng (length (engineerAccumulator ?st)) (st_repoMetric ?st)"
    by (simp add: rm_def aggregateMetrics_def Let_def)
  have valid: "\<exists>h d. healthScore rm = Finite (of_int h) \<and> 6 \<le> h \<and> h \<le> 100
                  \<and> deploymentFrequency rm = Finite (of_int d) \<and> 1 \<le> d"
    if "since rng = Time s" "until rng = Time u"
  proof -
    from getRangeDayCount_valid [OF that] obtain dc
      where dc: "1 \<le> dc" "getRangeDayCount rng = Finite (of_int dc)" by blast
    from deployment_frequency_valid [OF dc(1), of "mergedPRs (st_repoMetric ?st)"] obtain d
      where d: "1 \<le> d" "deploymentFrequency rm = Finite (of_int d)"
      unfolding rm finish_health(1) dc(2) by blast
    from health_valid [OF d(1), of "mergedPRs (st_repoMetric ?st)" "openPRs (st_repoMetric ?st)"]
    obtain h where h: "6 \<le> h" "h \<le> 100" "healthScore rm = Finite (of_int h)"
      using d(2) unfolding rm finish_health(2) by auto
    from d h show ?thesis by blast
  qed
  have invalid: "deploymentFrequency rm = NaN \<and> healthScore rm = NaN"
    if "since rng = InvalidDate \<or> until rng = InvalidDate"
    unfolding rm_def using aggregate_health_invalid [OF that] by simp
  show ?thesis using valid invalid by blast
qed

text \<open>The three sample pull requests over the sample range, and over a range without a start.\<close>

theorem health_score_range_witness:
  "since sample_range = Time 0 \<and> until sample_range = Time 2592000000
   \<and> (\<exists>h d. healthScore (repoMetric (aggregateMetrics ''web'' ''acme'' three_prs sample_range))
               = Finite (of_int h) \<and> 6 \<le> h \<and> h \<le> 100
            \<and> deploymentFrequency
                 (repoMetric (aggregateMetrics ''web'' ''acme'' three_prs sample_range))
               = Finite (of_int d) \<and> 1 \<le> d)
   \<and> since (sample_range\<lparr>since := InvalidDate\<rparr>) = InvalidDate
   \<and> healthScore
        (repoMetric (aggregateMetrics ''web'' ''acme'' three_prs
           (sample_range\<lparr>since := InvalidDate\<rparr>))) = NaN"
proof -
  have a: "since sample_range = Time 0 \<and> until sample_range = Time 2592000000"
    by (simp add: sample_range_def)
  have b: "since (sample_range\<lparr>since := InvalidDate\<rparr>) = InvalidDate" by simp
  show ?thesis
    using health_score_range [of sample_range 0 2592000000 "''web''" "''acme''" three_prs]
      health_score_range
        [of "sample_range\<lparr>since := InvalidDate\<rparr>" 0 0 "''web''" "''acme''" three_prs]
      a b
    by blast
qed

text \<open>
  C10, as stated, fails: over a range whose start is not a date the health score of the
  repository record is NaN, which is not a number between 6 and 100.
\<close>

theorem health_score_not_a_number:
  "healthScore
     (repoMetric (aggregateMetrics ''web'' ''acme'' three_prs
        (sample_range\<lparr>since := InvalidDate\<rparr>))) = NaN"
  by (rule aggregate_health_invalid) simp

text \<open>The health score of the three sample pull requests over the sample range.\<close>

lemma health_score_of_sample:
  "healthScore (repoMetric (aggregateMetrics ''web'' ''acme'' three_prs sample_range))
     = Finite 42"
proof -
  let ?st = "foldl (aggregate_step ''web'' ''acme'' sample_range)
               (initial_state ''web'' ''acme'') three_prs"
  have f: "length (filter (\<lambda>p. withinRange (merged_at p) sample_range) three_prs) = 1"
    "length (filter (\<lambda>p. \<not> withinRange (merged_at p) sample_range) three_prs) = 2"
    by (simp_all add: three_prs_def sample_range_def sample_pr_def)
  have m: "mergedPRs (st_repoMetric ?st) = 1" and k: "openPRs (st_repoMetric ?st) = 2"
    by (simp_all only: run_repoMetric initial_fields f add_0)
  have "getRangeDayCount sample_range
          = Finite (of_int (max 1 ((\<bar>2592000000 - 0\<bar> + 43200000) div 86400000)))"
    by (rule getRangeDayCount_near) (simp_all add: sample_range_def)
  then have dc: "getRangeDayCount sample_range = Finite 30" by simp
  have v: "Math_max (Finite 0)
         (Math_min (Finite 100)
            (Math_round
               (js_plus
                  (js_plus
                     (js_times (Finite 1) (Finite (round_to_double (3 / 10))))
                     (js_times
                        (Math_max (Finite 1) (Math_round (js_divide (Finite 1) (Finite 30))))
                        (Finite 6)))
                  (Math_max (Finite 0)
                     (js_minus (Finite 40) (js_times (Finite 2) (Finite 2)))))))
       = Finite 42"
    by code_simp
  show ?thesis
    unfolding aggregateMetrics_def Let_def AggregateResult.simps finish_health m k dc
    using v by simp
qed

section \<open>Properties of the Pull Request Collector and of the inbound operation\<close>

lemma split_acme_web: "split_full_name ''acme/web'' = (''acme'', ''web'')"
  by (simp add: split_full_name_def)


text \<open>
  C1, at an input where the code departs from it. The first page is full and starts with
  a pull request merged more than a day before \<open>since\<close>. The scan of that page stops
  at once, and no detail is fetched from it; but the page was full, so the collector goes
  on to fetch the second page and the detail of the pull request on it.
\<close>

theorem early_stop_overridden_by_page_size:
  "merged_before_window stale_pr sample_range
   \<and> pulls_page sample_github ''acme'' ''web'' 1 = Inr (stale_pr # replicate 49 sample_pr)
   \<and> fetchPullRequestsForRepo (Some ''t'') sample_github ''acme/web'' sample_range []
     = (Inr [sample_pr\<lparr>pr_id := 7, pr_number := 7\<rparr>],
        [GetPulls ''acme'' ''web'' 1, GetPulls ''acme'' ''web'' 2, GetPull ''acme'' ''web'' 7])"
proof -
  have s: "merged_before_window stale_pr sample_range"
    by (simp add: merged_before_window_def stale_pr_def sample_range_def)
  have f: "\<not> merged_before_window (sample_pr\<lparr>pr_id := 7, pr_number := 7\<rparr>) sample_range"
    by (simp add: merged_before_window_def sample_pr_def)
  have p1: "pulls_page sample_github ''acme'' ''web'' 1 = Inr (stale_pr # replicate 49 sample_pr)"
    by (simp add: sample_github_def)
  have p2: "pulls_page sample_github ''acme'' ''web'' 2
              = Inr [sample_pr\<lparr>pr_id := 7, pr_number := 7\<rparr>]"
    by (simp add: sample_github_def)
  have d: "pull_detail sample_github ''acme'' ''web'' 7
              = Inr (sample_pr\<lparr>pr_id := 7, pr_number := 7\<rparr>)"
    by (simp add: sample_github_def)
  have "fetchPullRequestsForRepo (Some ''t'') sample_github ''acme/web'' sample_range []
     = (Inr [sample_pr\<lparr>pr_id := 7, pr_number := 7\<rparr>],
        [GetPulls ''acme'' ''web'' 1, GetPulls ''acme'' ''web'' 2, GetPull ''acme'' ''web'' 7])"
    unfolding fetchPullRequestsForRepo_def split_acme_web
    by (simp add: fetchFromGitHub_def no_token_def perPage_def sample_github_def s f)
  with s p1 show ?thesis by simp
qed

text \<open>
  A page that is not full is the last one fetched: the loop returns what the scan of that
  page leaves, with no call after the scan's.
\<close>

lemma short_page_is_last:
  assumes "\<not> no_token token" and "page \<le> 5"
    and "pulls_page gh owner repo page = Inr batch" and "length batch \<noteq> perPage"
  shows "fetchPullRequests_loop token gh owner repo rng page True pullRequests calls
           = (case scan_batch token gh owner repo rng batch pullRequests True
                     (calls @ [GetPulls owner repo page]) of
                (Inl e, calls') \<Rightarrow> (Inl e, calls')
              | (Inr (pullRequests', stop), calls') \<Rightarrow> (Inr pullRequests', calls'))"
  using assms
  by (subst fetchPullRequests_loop.simps)
     (simp add: fetchFromGitHub_def split: prod.split sum.split)










end
